theory Spec2Isabelle
  imports Main "HOL-Library.Word"
begin

unbundle bit_operations_syntax

section \<open>The TIC decoder of \<^verbatim>\<open>esp32/main/linky.cpp\<close>\<close>

text \<open>
  A C \<^verbatim>\<open>char\<close> is modelled by \<^typ>\<open>char\<close> (eight bits, unsigned as the
  compilers of the ESP32 have it; the UART delivers seven), a \<^verbatim>\<open>char\<close> array by
  \<^typ>\<open>string\<close>, an \<^verbatim>\<open>unsigned int\<close> or \<^verbatim>\<open>unsigned long\<close> (both 32 bits on the
  ESP32) by a \<^typ>\<open>nat\<close> below \<open>2 ^ 32\<close> with the wrap-around of subtraction written
  out, and the \<^verbatim>\<open>int\<close> accumulator of the checksum by a \<^typ>\<open>32 word\<close>.
  Every access outside an array is a \<open>fault\<close>: the program has no defined
  behaviour from there on.
\<close>

subsection \<open>Constants and types of \<^verbatim>\<open>linky.h\<close>\<close>

text \<open>Modelled from the spec: the header \<^verbatim>\<open>linky.h\<close> with the macro
  \<^verbatim>\<open>START_OF_FRAME\<close> is not among the sources; the spec names STX for the
  historical mode.\<close>
definition START_OF_FRAME :: char where
  "START_OF_FRAME = CHR 0x02"

text \<open>Modelled from the spec: the macro \<^verbatim>\<open>END_OF_FRAME\<close> of the missing header
  \<^verbatim>\<open>linky.h\<close>; the spec names ETX.\<close>
definition END_OF_FRAME :: char where
  "END_OF_FRAME = CHR 0x03"

text \<open>Modelled from the spec: the macro \<^verbatim>\<open>START_OF_GROUP\<close> of the missing header
  \<^verbatim>\<open>linky.h\<close>; the spec names LF.\<close>
definition START_OF_GROUP :: char where
  "START_OF_GROUP = CHR 0x0A"

text \<open>Modelled from the spec: the macro \<^verbatim>\<open>END_OF_GROUP\<close> of the missing header
  \<^verbatim>\<open>linky.h\<close>; the spec names CR.\<close>
definition END_OF_GROUP :: char where
  "END_OF_GROUP = CHR 0x0D"

text \<open>Modelled from the spec: the macro \<^verbatim>\<open>GROUP_SEPARATOR\<close> of the missing header
  \<^verbatim>\<open>linky.h\<close>; the spec names the space character.\<close>
definition GROUP_SEPARATOR :: char where
  "GROUP_SEPARATOR = CHR 0x20"

text \<open>The terminator of a C string.\<close>
definition NUL :: char where
  "NUL = CHR 0x00"

text \<open>\<^verbatim>\<open>UINT_MAX\<close> and \<^verbatim>\<open>ULONG_MAX\<close> of the 32-bit target.\<close>
definition UINT_MAX :: nat where
  "UINT_MAX = 4294967295"

definition ULONG_MAX :: nat where
  "ULONG_MAX = 4294967295"

text \<open>
  The sizes that \<^verbatim>\<open>linky.h\<close> fixes and the sources do not show are parameters of
  the model: the macros \<^verbatim>\<open>FRAME_SIZE\<close> and \<^verbatim>\<open>GROUP_COUNT\<close>, and the lengths of the
  four \<^verbatim>\<open>char\<close> arrays of the record. \<^verbatim>\<open>BUFFER_SIZE\<close> is the length of the buffer
  that \<open>decode\<close> is given.
\<close>
record sizes =
  FRAME_SIZE :: nat
  GROUP_COUNT :: nat
  OPTARIF_SIZE :: nat
  PTEC_SIZE :: nat
  HHPHC_SIZE :: nat
  MOTDETAT_SIZE :: nat

text \<open>
  The record \<^verbatim>\<open>data\<close>. The numeric members receive the \<^verbatim>\<open>unsigned long\<close> that
  \<^verbatim>\<open>strtoul\<close> returns; a \<^verbatim>\<open>char\<close> array member is represented by the C string
  it holds (the characters before its terminator).
\<close>
record LinkyData =
  ADCO :: nat
  OPTARIF :: string
  ISOUSC :: nat
  BASE :: nat
  HCHC :: nat
  HCHP :: nat
  PTEC :: string
  IINST :: nat
  IMAX :: nat
  PAPP :: nat
  HHPHC :: string
  MOTDETAT :: string

text \<open>\<^verbatim>\<open>data = {0}\<close>\<close>
definition data_reset :: LinkyData where
  "data_reset = \<lparr>ADCO = 0, OPTARIF = [], ISOUSC = 0, BASE = 0, HCHC = 0, HCHP = 0,
     PTEC = [], IINST = 0, IMAX = 0, PAPP = 0, HHPHC = [], MOTDETAT = []\<rparr>"

subsection \<open>Memory faults and the C library\<close>

text \<open>A write (\<open>Overflow\<close>) or a read (\<open>Overread\<close>) outside the named array.\<close>
datatype fault = Overflow string | Overread string

fun and_then :: "fault + 'a \<Rightarrow> ('a \<Rightarrow> fault + 'b) \<Rightarrow> fault + 'b" where
  "and_then (Inl e) f = Inl e"
| "and_then (Inr x) f = f x"

text \<open>Subtraction of two \<^verbatim>\<open>unsigned int\<close>: it wraps around modulo \<open>2 ^ 32\<close>.\<close>
definition usub :: "nat \<Rightarrow> nat \<Rightarrow> nat" where
  "usub a b = nat ((int a - int b) mod 2 ^ 32)"

text \<open>
  \<^verbatim>\<open>char dst[cap] = {0}; memcpy(dst, src + off, n);\<close> gives the new contents of
  \<open>dst\<close>, unless \<open>n\<close> bytes do not fit \<open>dst\<close> or do not lie inside \<open>src\<close>.
\<close>
definition memcpy :: "string \<Rightarrow> nat \<Rightarrow> string \<Rightarrow> nat \<Rightarrow> nat \<Rightarrow> fault + string" where
  "memcpy dst cap src off n =
     (if cap < n then Inl (Overflow dst)
      else if length src < off + n then Inl (Overread dst)
      else Inr (take n (drop off src) @ replicate (cap - n) NUL))"

text \<open>The C string that a \<^verbatim>\<open>char\<close> array holds: what \<^verbatim>\<open>strlen\<close>, \<^verbatim>\<open>strcmp\<close>,
  \<^verbatim>\<open>strcpy\<close> and \<^verbatim>\<open>strtoul\<close> read of an array that has a terminator.\<close>
definition c_str :: "string \<Rightarrow> string" where
  "c_str a = takeWhile (\<lambda>c. c \<noteq> NUL) a"

text \<open>\<^verbatim>\<open>strcpy(dst, src)\<close> into a zeroed array of \<open>cap\<close> bytes writes the string and
  its terminator.\<close>
definition strcpy :: "string \<Rightarrow> nat \<Rightarrow> string \<Rightarrow> fault + string" where
  "strcpy dst cap src = (if cap < length src + 1 then Inl (Overflow dst) else Inr src)"

definition isspace :: "char \<Rightarrow> bool" where
  "isspace c = (c = CHR 0x20 \<or> (9 \<le> (of_char c :: nat) \<and> (of_char c :: nat) \<le> 13))"

definition isdigit :: "char \<Rightarrow> bool" where
  "isdigit c = (48 \<le> (of_char c :: nat) \<and> (of_char c :: nat) \<le> 57)"

definition digit_value :: "char \<Rightarrow> nat" where
  "digit_value c = of_char c - 48"

text \<open>The digit loop of \<^verbatim>\<open>strtoul\<close>: the accumulator, and whether the value has
  left the range of \<^verbatim>\<open>unsigned long\<close>.\<close>
fun strtoul_digits :: "nat \<Rightarrow> bool \<Rightarrow> string \<Rightarrow> nat \<times> bool" where
  "strtoul_digits acc over [] = (acc, over)"
| "strtoul_digits acc over (c # cs) =
     (if isdigit c then
        (if over \<or> ULONG_MAX < acc * 10 + digit_value c then strtoul_digits acc True cs
         else strtoul_digits (acc * 10 + digit_value c) False cs)
      else (acc, over))"

text \<open>
  \<^verbatim>\<open>strtoul(value, NULL, 10)\<close> of the C library: white space is skipped, one sign
  is accepted, the digits that follow are converted; a value out of range gives
  \<^verbatim>\<open>ULONG_MAX\<close>, a minus sign negates in \<^verbatim>\<open>unsigned long\<close>, no digit gives 0.
\<close>
definition strtoul :: "string \<Rightarrow> nat" where
  "strtoul s =
     (let s1 = dropWhile isspace s;
          neg = (s1 \<noteq> [] \<and> hd s1 = CHR ''-'');
          s2 = (if s1 \<noteq> [] \<and> (hd s1 = CHR ''-'' \<or> hd s1 = CHR ''+'') then tl s1 else s1);
          (acc, over) = strtoul_digits 0 False s2
      in if over then ULONG_MAX else if neg then usub 0 acc else acc)"

subsection \<open>\<^verbatim>\<open>Linky::checksum\<close>\<close>

text \<open>The loop \<^verbatim>\<open>for (i = 0; i < strlen(s); i++) S1 += s[i];\<close> over the characters
  of a C string.\<close>
fun add_chars :: "32 word \<Rightarrow> string \<Rightarrow> 32 word" where
  "add_chars S1 [] = S1"
| "add_chars S1 (c # cs) = add_chars (S1 + of_char c) cs"

definition checksum :: "string \<Rightarrow> string \<Rightarrow> char" where
  "checksum label data =
     (let S1 = add_chars 0 (c_str label);
          S1 = S1 + of_char GROUP_SEPARATOR;
          S1 = add_chars S1 (c_str data)
      in char_of (unat ((S1 AND 0x3F) + 0x20)))"

subsection \<open>\<^verbatim>\<open>Linky::decode\<close>\<close>

text \<open>
  First step, the loop over the buffer: \<open>i\<close> is the index of the head of the
  remaining buffer, \<open>startOfFrame\<close> the index recorded so far. The result is
  \<open>(startOfFrame, endOfFrame)\<close>.
\<close>
fun find_frame :: "nat \<Rightarrow> nat \<Rightarrow> string \<Rightarrow> nat \<times> nat" where
  "find_frame i startOfFrame [] = (startOfFrame, UINT_MAX)"
| "find_frame i startOfFrame (c # cs) =
     (if c = START_OF_FRAME then find_frame (Suc i) i cs
      else if c = END_OF_FRAME \<and> i > startOfFrame then (startOfFrame, i)
      else find_frame (Suc i) startOfFrame cs)"

text \<open>
  Second step, the loop over the frame: the state is
  \<open>(startOfGroup, endOfGroup, startOfGroupIndex, endOfGroupIndex)\<close>.
\<close>
fun find_groups :: "nat \<Rightarrow> string \<Rightarrow> nat list \<times> nat list \<times> nat \<times> nat \<Rightarrow>
    fault + (nat list \<times> nat list \<times> nat \<times> nat)" where
  "find_groups i [] st = Inr st"
| "find_groups i (c # cs) (startOfGroup, endOfGroup, startOfGroupIndex, endOfGroupIndex) =
     (if c = START_OF_GROUP then
        (if startOfGroupIndex < length startOfGroup
         then find_groups (Suc i) cs
                (startOfGroup[startOfGroupIndex := i], endOfGroup,
                 Suc startOfGroupIndex, endOfGroupIndex)
         else Inl (Overflow ''startOfGroup''))
      else if c = END_OF_GROUP then
        (if endOfGroupIndex < length endOfGroup
         then find_groups (Suc i) cs
                (startOfGroup, endOfGroup[endOfGroupIndex := i],
                 startOfGroupIndex, Suc endOfGroupIndex)
         else Inl (Overflow ''endOfGroup''))
      else find_groups (Suc i) cs (startOfGroup, endOfGroup, startOfGroupIndex, endOfGroupIndex))"

text \<open>Third step, the inner loop over the characters \<open>frame[j]\<close> of one group,
  with \<open>j\<close> the index of the head of the remaining characters.\<close>
fun find_separators :: "nat \<Rightarrow> string \<Rightarrow> nat list \<Rightarrow> nat \<Rightarrow> fault + nat list" where
  "find_separators j [] separatorIndex s = Inr separatorIndex"
| "find_separators j (c # cs) separatorIndex s =
     (if c = GROUP_SEPARATOR then
        (if s < length separatorIndex
         then find_separators (Suc j) cs (separatorIndex[s := j]) (Suc s)
         else Inl (Overflow ''separatorIndex''))
      else find_separators (Suc j) cs separatorIndex s)"

text \<open>Fourth step, the chain of \<^verbatim>\<open>strcmp\<close> on the label of a field whose checksum
  is right.\<close>
definition dispatch :: "sizes \<Rightarrow> string \<Rightarrow> string \<Rightarrow> LinkyData \<Rightarrow> fault + LinkyData" where
  "dispatch sz label val data =
     (if label = ''ADCO'' then Inr (data\<lparr>ADCO := strtoul val\<rparr>)
      else if label = ''OPTARIF'' then
        and_then (strcpy ''OPTARIF'' (OPTARIF_SIZE sz) val) (\<lambda>s. Inr (data\<lparr>OPTARIF := s\<rparr>))
      else if label = ''ISOUSC'' then Inr (data\<lparr>ISOUSC := strtoul val\<rparr>)
      else if label = ''BASE'' then Inr (data\<lparr>BASE := strtoul val\<rparr>)
      else if label = ''HCHC'' then Inr (data\<lparr>HCHC := strtoul val\<rparr>)
      else if label = ''HCHP'' then Inr (data\<lparr>HCHP := strtoul val\<rparr>)
      else if label = ''PTEC'' then
        and_then (strcpy ''PTEC'' (PTEC_SIZE sz) val) (\<lambda>s. Inr (data\<lparr>PTEC := s\<rparr>))
      else if label = ''IINST'' then Inr (data\<lparr>IINST := strtoul val\<rparr>)
      else if label = ''IMAX'' then Inr (data\<lparr>IMAX := strtoul val\<rparr>)
      else if label = ''PAPP'' then Inr (data\<lparr>PAPP := strtoul val\<rparr>)
      else if label = ''HHPHC'' then
        and_then (strcpy ''HHPHC'' (HHPHC_SIZE sz) val) (\<lambda>s. Inr (data\<lparr>HHPHC := s\<rparr>))
      else if label = ''MOTDETAT'' then
        and_then (strcpy ''MOTDETAT'' (MOTDETAT_SIZE sz) val) (\<lambda>s. Inr (data\<lparr>MOTDETAT := s\<rparr>))
      else Inr data)"

text \<open>
  The body of the loop over the groups, for the group that starts at index \<open>st\<close>
  and ends at index \<open>en\<close> of the frame; \<open>n\<close> is \<open>startOfGroupIndex\<close>. The inner
  loop runs over \<open>frame[st] \<dots> frame[en - 1]\<close>. \<^verbatim>\<open>strlen\<close> and \<^verbatim>\<open>strcmp\<close> leave
  an array that has no terminator.
\<close>
definition decode_group ::
    "sizes \<Rightarrow> string \<Rightarrow> nat \<Rightarrow> nat \<Rightarrow> nat \<Rightarrow> LinkyData \<Rightarrow> fault + LinkyData" where
  "decode_group sz frame st en n data =
     and_then (find_separators st (take (en - st) (drop st frame)) (replicate (n + 1) 0) 0)
       (\<lambda>separatorIndex.
     and_then (memcpy ''label'' 10 frame (st + 1)
                 (usub (usub (separatorIndex ! 0) st) 1))
       (\<lambda>label.
     and_then (memcpy ''value'' 20 frame (separatorIndex ! 0 + 1)
                 (usub (usub (separatorIndex ! 1) (separatorIndex ! 0)) 1))
       (\<lambda>val.
     and_then (memcpy ''checksum'' 5 frame (separatorIndex ! 1 + 1)
                 (usub (usub en (separatorIndex ! 1)) 1))
       (\<lambda>chk.
     if NUL \<notin> set label then Inl (Overread ''label'')
     else if NUL \<notin> set val then Inl (Overread ''value'')
     else if checksum label val \<noteq> chk ! 0 then Inr data
     else dispatch sz (c_str label) (c_str val) data))))"

text \<open>The loop over the groups \<open>i\<close>.\<close>
fun for_each_group ::
    "sizes \<Rightarrow> string \<Rightarrow> nat list \<Rightarrow> nat list \<Rightarrow> nat \<Rightarrow> nat list \<Rightarrow> LinkyData \<Rightarrow>
     fault + LinkyData" where
  "for_each_group sz frame startOfGroup endOfGroup n [] data = Inr data"
| "for_each_group sz frame startOfGroup endOfGroup n (i # is) data =
     and_then (decode_group sz frame (startOfGroup ! i) (endOfGroup ! i) n data)
       (for_each_group sz frame startOfGroup endOfGroup n is)"

text \<open>
  The second to fourth steps of \<^verbatim>\<open>Linky::decode\<close>, on the local array
  \<^verbatim>\<open>char frame[200]\<close>; \<open>data\<close> is the record as the start of the function
  has cleared it. The loop of the second step reads \<open>frame[0] \<dots> frame[FRAME_SIZE - 1]\<close>.
  Only the first cell of the two index arrays is initialised to \<^verbatim>\<open>UINT_MAX\<close>.
\<close>
definition decode_frame :: "sizes \<Rightarrow> string \<Rightarrow> LinkyData \<Rightarrow> fault + (bool \<times> LinkyData)" where
  "decode_frame sz frame data =
     (if length frame < FRAME_SIZE sz then Inl (Overread ''frame'')
      else
     and_then (find_groups 0 (take (FRAME_SIZE sz) frame)
                 (UINT_MAX # replicate (GROUP_COUNT sz - 1) 0,
                  UINT_MAX # replicate (GROUP_COUNT sz - 1) 0, 0, 0))
       (\<lambda>(startOfGroup, endOfGroup, startOfGroupIndex, endOfGroupIndex).
     if startOfGroup ! 0 = UINT_MAX \<or> endOfGroup ! 0 = UINT_MAX then Inr (False, data)
     else if startOfGroupIndex \<noteq> endOfGroupIndex then Inr (False, data)
     else
     and_then (for_each_group sz frame startOfGroup endOfGroup startOfGroupIndex
                 [0 ..< startOfGroupIndex] data)
       (\<lambda>data'. Inr (True, data'))))"

text \<open>
  \<^verbatim>\<open>Linky::decode\<close>, on the buffer as \<^verbatim>\<open>uart_read_bytes\<close> has left it and the
  count \<open>rxBytes\<close> it has returned, which the function only logs. The loop of the
  first step runs over the whole buffer, whose length is \<^verbatim>\<open>BUFFER_SIZE\<close>. The
  result is the returned flag (\<open>True\<close> for 1) and the record \<^verbatim>\<open>data\<close>.
\<close>
definition decode :: "sizes \<Rightarrow> int \<Rightarrow> string \<Rightarrow> fault + (bool \<times> LinkyData)" where
  "decode sz rxBytes buffer =
     (let data = data_reset;
          (startOfFrame, endOfFrame) = find_frame 0 UINT_MAX buffer
      in if endOfFrame = UINT_MAX \<or> startOfFrame = UINT_MAX \<or> startOfFrame > endOfFrame
         then Inr (False, data)
         else and_then (memcpy ''frame'' 200 buffer startOfFrame (usub endOfFrame startOfFrame))
                (\<lambda>frame. decode_frame sz frame data))"

subsection \<open>Vocabulary of the statements\<close>

text \<open>Sizes for the examples: a frame loop over the whole array \<^verbatim>\<open>frame\<close>, fifty
  groups, and room for the longest texts of the historical mode.\<close>
definition example_sizes :: sizes where
  "example_sizes = \<lparr>FRAME_SIZE = 200, GROUP_COUNT = 50, OPTARIF_SIZE = 5, PTEC_SIZE = 5,
     HHPHC_SIZE = 4, MOTDETAT_SIZE = 7\<rparr>"

text \<open>A group as the meter sends it: the label \<open>l\<close>, the value \<open>v\<close> and the
  checksum character \<open>c\<close> between the two group markers.\<close>
definition tic_group :: "string \<Rightarrow> string \<Rightarrow> char \<Rightarrow> string" where
  "tic_group l v c =
     START_OF_GROUP # l @ GROUP_SEPARATOR # v @ [GROUP_SEPARATOR, c, END_OF_GROUP]"

text \<open>The groups of the given (label, value, checksum) triples, one after the
  other.\<close>
definition groups :: "(string \<times> string \<times> char) list \<Rightarrow> string" where
  "groups fs = concat (map (\<lambda>(l, v, c). tic_group l v c) fs)"

text \<open>A pair of label and value with the checksum that \<open>checksum\<close> computes.\<close>
definition sealed :: "string \<times> string \<Rightarrow> string \<times> string \<times> char" where
  "sealed f = (fst f, snd f, checksum (fst f) (snd f))"

text \<open>
  The buffer holds \<open>pre\<close>, a start marker, \<open>body\<close>, an end marker and \<open>post\<close>,
  and this is the first frame of the buffer: \<open>body\<close> has no frame marker, and
  no end marker follows a start marker inside \<open>pre\<close>. The indices of the buffer
  are values of \<^verbatim>\<open>unsigned int\<close> below \<^verbatim>\<open>UINT_MAX\<close>.
\<close>
definition first_frame :: "string \<Rightarrow> string \<Rightarrow> string \<Rightarrow> string \<Rightarrow> bool" where
  "first_frame buffer pre body post =
     (buffer = pre @ START_OF_FRAME # body @ END_OF_FRAME # post
      \<and> END_OF_FRAME \<notin> set (dropWhile (\<lambda>c. c \<noteq> START_OF_FRAME) pre)
      \<and> START_OF_FRAME \<notin> set body \<and> END_OF_FRAME \<notin> set body
      \<and> length buffer \<le> UINT_MAX)"

text \<open>The number of leading bytes of the buffer that the first step reads: up to
  the end marker at which it stops, or all of them.\<close>
definition scanned :: "string \<Rightarrow> nat" where
  "scanned buffer =
     (case find_frame 0 UINT_MAX buffer of
        (startOfFrame, endOfFrame) \<Rightarrow>
          if endOfFrame = UINT_MAX then length buffer else endOfFrame + 1)"

definition marker :: "char \<Rightarrow> bool" where
  "marker c = (c = START_OF_FRAME \<or> c = END_OF_FRAME \<or> c = START_OF_GROUP
               \<or> c = END_OF_GROUP \<or> c = GROUP_SEPARATOR)"

text \<open>A text without marker and without terminator.\<close>
definition plain :: "string \<Rightarrow> bool" where
  "plain s = list_all (\<lambda>c. \<not> marker c \<and> c \<noteq> NUL) s"

definition numeric_labels :: "string list" where
  "numeric_labels =
     [''ADCO'', ''ISOUSC'', ''BASE'', ''HCHC'', ''HCHP'', ''IINST'', ''IMAX'', ''PAPP'']"

definition text_labels :: "string list" where
  "text_labels = [''OPTARIF'', ''PTEC'', ''HHPHC'', ''MOTDETAT'']"

text \<open>The member of the record that a label names.\<close>
definition numeric_slot :: "string \<Rightarrow> LinkyData \<Rightarrow> nat option" where
  "numeric_slot l d =
     (if l = ''ADCO'' then Some (ADCO d) else if l = ''ISOUSC'' then Some (ISOUSC d)
      else if l = ''BASE'' then Some (BASE d) else if l = ''HCHC'' then Some (HCHC d)
      else if l = ''HCHP'' then Some (HCHP d) else if l = ''IINST'' then Some (IINST d)
      else if l = ''IMAX'' then Some (IMAX d) else if l = ''PAPP'' then Some (PAPP d)
      else None)"

definition text_slot :: "string \<Rightarrow> LinkyData \<Rightarrow> string option" where
  "text_slot l d =
     (if l = ''OPTARIF'' then Some (OPTARIF d) else if l = ''PTEC'' then Some (PTEC d)
      else if l = ''HHPHC'' then Some (HHPHC d) else if l = ''MOTDETAT'' then Some (MOTDETAT d)
      else None)"

text \<open>The member that \<open>l\<close> names holds the result of the field \<open>l\<close>, \<open>v\<close>.\<close>
definition slot_holds :: "string \<Rightarrow> string \<Rightarrow> LinkyData \<Rightarrow> bool" where
  "slot_holds l v d =
     ((l \<in> set numeric_labels \<longrightarrow> numeric_slot l d = Some (strtoul v))
      \<and> (l \<in> set text_labels \<longrightarrow> text_slot l d = Some v))"

text \<open>The member that \<open>l\<close> names is the same in both records.\<close>
definition slot_same :: "string \<Rightarrow> LinkyData \<Rightarrow> LinkyData \<Rightarrow> bool" where
  "slot_same l d d' = (numeric_slot l d' = numeric_slot l d \<and> text_slot l d' = text_slot l d)"

text \<open>The length of the array that a text label names.\<close>
definition text_size :: "sizes \<Rightarrow> string \<Rightarrow> nat" where
  "text_size sz l =
     (if l = ''OPTARIF'' then OPTARIF_SIZE sz else if l = ''PTEC'' then PTEC_SIZE sz
      else if l = ''HHPHC'' then HHPHC_SIZE sz else MOTDETAT_SIZE sz)"

text \<open>The number that a string of decimal digits denotes.\<close>
fun decimal_from :: "nat \<Rightarrow> string \<Rightarrow> nat" where
  "decimal_from a [] = a"
| "decimal_from a (c # cs) = decimal_from (10 * a + digit_value c) cs"

definition decimal :: "string \<Rightarrow> nat" where
  "decimal v = decimal_from 0 v"

text \<open>The \<^verbatim>\<open>unsigned long\<close> that stands for the number \<open>n\<close>, read after a minus
  sign or not: \<^verbatim>\<open>ULONG_MAX\<close> when \<open>n\<close> is out of range, \<open>n\<close> negated modulo
  \<open>2 ^ 32\<close> after a minus sign.\<close>
definition converted :: "bool \<Rightarrow> nat \<Rightarrow> nat" where
  "converted neg n = (if ULONG_MAX < n then ULONG_MAX else if neg then usub 0 n else n)"

text \<open>A group whose parts lie where the decoder looks for them: label and value
  are plain and fit the arrays \<^verbatim>\<open>label\<close> and \<^verbatim>\<open>value\<close> with their terminator,
  and the checksum character is no marker, so that the group has its two
  separators and no more.\<close>
definition well_formed :: "string \<times> string \<times> char \<Rightarrow> bool" where
  "well_formed f = (case f of (l, v, c) \<Rightarrow>
     plain l \<and> length l \<le> 9 \<and> plain v \<and> length v \<le> 19 \<and> \<not> marker c)"

text \<open>
  A field that the dispatcher can store: a known label and a plain value of at
  most 19 characters, shorter than its array when the label is a text label.
\<close>
definition field_fits :: "sizes \<Rightarrow> string \<Rightarrow> string \<Rightarrow> bool" where
  "field_fits sz l v =
     (plain v \<and> length v \<le> 19 \<and>
      (l \<in> set numeric_labels \<or> l \<in> set text_labels \<and> length v < text_size sz l))"

text \<open>
  The first frame of the buffer consists of the groups of the triples \<open>fs\<close>,
  within the sizes of the decoder: at least one group and at most
  \<^verbatim>\<open>GROUP_COUNT\<close>, a frame inside the loop bound \<^verbatim>\<open>FRAME_SIZE\<close> and the array
  \<^verbatim>\<open>frame\<close>, no label twice, every field storable and every checksum character
  no marker.
\<close>
definition frame_with ::
    "sizes \<Rightarrow> string \<Rightarrow> string \<Rightarrow> (string \<times> string \<times> char) list \<Rightarrow> string \<Rightarrow> bool" where
  "frame_with sz buffer pre fs post =
     (first_frame buffer pre (groups fs) post
      \<and> fs \<noteq> [] \<and> length fs \<le> GROUP_COUNT sz
      \<and> 1 + length (groups fs) \<le> FRAME_SIZE sz \<and> FRAME_SIZE sz \<le> 200
      \<and> distinct (map fst fs)
      \<and> list_all (\<lambda>(l, v, c). field_fits sz l v \<and> \<not> marker c) fs)"

text \<open>What the loop over the groups does with the fields of a frame, one after
  the other: a field whose checksum character is wrong is left out.\<close>
fun fields_result ::
    "sizes \<Rightarrow> (string \<times> string \<times> char) list \<Rightarrow> LinkyData \<Rightarrow> fault + LinkyData" where
  "fields_result sz [] data = Inr data"
| "fields_result sz ((l, v, c) # fs) data =
     and_then (if checksum l v \<noteq> c then Inr data else dispatch sz l v data)
       (fields_result sz fs)"

text \<open>The indices, counted from \<open>i\<close>, at which a text holds the character \<open>c\<close>.\<close>
fun positions :: "char \<Rightarrow> nat \<Rightarrow> string \<Rightarrow> nat list" where
  "positions c i [] = []"
| "positions c i (x # xs) =
     (if x = c then i # positions c (Suc i) xs else positions c (Suc i) xs)"

section \<open>The checksum\<close>

lemma add_chars_sum: "add_chars S1 cs = S1 + word_of_nat (sum_list (map of_char cs))"
  by (induction cs arbitrary: S1) (simp_all add: of_nat_of_char)

lemma low6_of_nat: "unat ((word_of_nat n :: 32 word) AND 0x3F) = n AND 0x3F"
proof -
  have m: "(0x3F :: 32 word) = mask 6" "(0x3F :: nat) = mask 6"
    by (simp_all add: mask_eq_exp_minus_1)
  have "unat (take_bit 6 (word_of_nat n :: 32 word)) = take_bit 6 (take_bit 32 n)"
    by (simp add: unsigned_take_bit_eq unsigned_of_nat)
  also have "\<dots> = take_bit 6 n"
    by simp
  finally show ?thesis
    by (simp only: m take_bit_eq_mask)
qed

lemma low6_bound: "(n::nat) AND 0x3F < 64"
proof -
  have "n AND 0x3F = take_bit 6 n"
    by (simp add: take_bit_eq_mask mask_eq_exp_minus_1)
  then show ?thesis
    by (simp add: take_bit_eq_mod)
qed

lemma unat_low6_plus:
  "unat (((word_of_nat n :: 32 word) AND 0x3F) + 0x20) = (n AND 0x3F) + 0x20"
proof -
  let ?w = "(word_of_nat n :: 32 word) AND 0x3F"
  have "unat ?w + unat (0x20 :: 32 word) < 2 ^ LENGTH(32)"
    using low6_bound [of n] by (simp add: low6_of_nat)
  then have "unat (?w + 0x20) = unat ?w + unat (0x20 :: 32 word)"
    by (simp only: unat_add_lem)
  then show ?thesis
    by (simp add: low6_of_nat)
qed

lemma checksum_value:
  "of_char (checksum label data) =
     ((sum_list (map of_char (c_str label)) + of_char GROUP_SEPARATOR
        + sum_list (map of_char (c_str data))) AND 0x3F) + (0x20 :: nat)"
proof -
  let ?n = "sum_list (map of_char (c_str label)) + of_char GROUP_SEPARATOR
              + sum_list (map of_char (c_str data)) :: nat"
  have S1: "add_chars (add_chars 0 (c_str label) + of_char GROUP_SEPARATOR) (c_str data)
              = word_of_nat ?n"
    by (simp add: add_chars_sum of_nat_of_char)
  have "checksum label data = char_of ((?n AND 0x3F) + 0x20)"
    unfolding checksum_def Let_def S1 unat_low6_plus ..
  moreover have "((?n AND 0x3F) + 0x20) mod 256 = (?n AND 0x3F) + 0x20"
    using low6_bound [of ?n] by simp
  ultimately show ?thesis
    by (simp only: of_char_of)
qed

text \<open>
  Claim C1. For every label and every value, the checksum is the sum of the byte
  values of the label's characters, of the separator and of the value's
  characters, reduced to its low six bits (AND \<open>0x3F\<close>), plus \<open>0x20\<close>. The
  separator is the byte \<open>0x20\<close>, and for the label \<open>ADCO\<close> (sum 279) and the
  value \<open>031258549200\<close> (sum 615) the checksum is the byte \<open>0x3E\<close>.
\<close>
theorem checksum_formula:
  "of_char (checksum label data) =
     ((sum_list (map of_char (c_str label)) + of_char GROUP_SEPARATOR
        + sum_list (map of_char (c_str data))) AND 0x3F) + (0x20 :: nat)
   \<and> c_str ''ADCO'' = ''ADCO'' \<and> c_str ''031258549200'' = ''031258549200''
   \<and> sum_list (map of_char ''ADCO'') = (279 :: nat)
   \<and> of_char GROUP_SEPARATOR = (0x20 :: nat)
   \<and> sum_list (map of_char ''031258549200'') = (615 :: nat)
   \<and> checksum ''ADCO'' ''031258549200'' = CHR 0x3E"
proof -
  have "checksum ''ADCO'' ''031258549200'' = CHR 0x3E"
    by (simp add: checksum_def c_str_def NUL_def GROUP_SEPARATOR_def char_of_eq_iff)
  then show ?thesis
    by (simp add: checksum_value c_str_def NUL_def GROUP_SEPARATOR_def)
qed

section \<open>Markers\<close>

lemma marker_neq [simp]:
  "START_OF_FRAME \<noteq> END_OF_FRAME" "END_OF_FRAME \<noteq> START_OF_FRAME"
  "START_OF_FRAME \<noteq> START_OF_GROUP" "START_OF_GROUP \<noteq> START_OF_FRAME"
  "START_OF_FRAME \<noteq> END_OF_GROUP" "END_OF_GROUP \<noteq> START_OF_FRAME"
  "START_OF_FRAME \<noteq> GROUP_SEPARATOR" "GROUP_SEPARATOR \<noteq> START_OF_FRAME"
  "START_OF_FRAME \<noteq> NUL" "NUL \<noteq> START_OF_FRAME"
  "END_OF_FRAME \<noteq> START_OF_GROUP" "START_OF_GROUP \<noteq> END_OF_FRAME"
  "END_OF_FRAME \<noteq> END_OF_GROUP" "END_OF_GROUP \<noteq> END_OF_FRAME"
  "END_OF_FRAME \<noteq> GROUP_SEPARATOR" "GROUP_SEPARATOR \<noteq> END_OF_FRAME"
  "END_OF_FRAME \<noteq> NUL" "NUL \<noteq> END_OF_FRAME"
  "START_OF_GROUP \<noteq> END_OF_GROUP" "END_OF_GROUP \<noteq> START_OF_GROUP"
  "START_OF_GROUP \<noteq> GROUP_SEPARATOR" "GROUP_SEPARATOR \<noteq> START_OF_GROUP"
  "START_OF_GROUP \<noteq> NUL" "NUL \<noteq> START_OF_GROUP"
  "END_OF_GROUP \<noteq> GROUP_SEPARATOR" "GROUP_SEPARATOR \<noteq> END_OF_GROUP"
  "END_OF_GROUP \<noteq> NUL" "NUL \<noteq> END_OF_GROUP"
  "GROUP_SEPARATOR \<noteq> NUL" "NUL \<noteq> GROUP_SEPARATOR"
  by (simp_all add: START_OF_FRAME_def END_OF_FRAME_def START_OF_GROUP_def END_OF_GROUP_def
        GROUP_SEPARATOR_def NUL_def)

section \<open>The search for the frame\<close>

lemma find_frame_no_start:
  "START_OF_FRAME \<notin> set buf \<Longrightarrow> fst (find_frame i UINT_MAX buf) = UINT_MAX"
  by (induction buf arbitrary: i) auto

lemma find_frame_no_end:
  "END_OF_FRAME \<notin> set buf \<Longrightarrow> snd (find_frame i s buf) = UINT_MAX"
  by (induction buf arbitrary: i s) auto

lemma find_frame_skip_no_end:
  "END_OF_FRAME \<notin> set a \<Longrightarrow>
     find_frame i s (a @ START_OF_FRAME # rest) = find_frame (i + length a) s' (START_OF_FRAME # rest)"
  by (induction a arbitrary: i s) auto

lemma find_frame_skip_plain:
  "START_OF_FRAME \<notin> set m \<Longrightarrow> END_OF_FRAME \<notin> set m \<Longrightarrow>
     find_frame i s (m @ rest) = find_frame (i + length m) s rest"
  by (induction m arbitrary: i) auto

lemma find_frame_skip_no_start:
  "START_OF_FRAME \<notin> set a \<Longrightarrow> i + length a \<le> UINT_MAX + 1 \<Longrightarrow>
     find_frame i UINT_MAX (a @ rest) = find_frame (i + length a) UINT_MAX rest"
  by (induction a arbitrary: i) auto

lemma find_frame_found:
  assumes "START_OF_FRAME \<notin> set a1" "END_OF_FRAME \<notin> set a2"
    and "START_OF_FRAME \<notin> set m" "END_OF_FRAME \<notin> set m"
    and "length a1 \<le> UINT_MAX"
  shows "find_frame 0 UINT_MAX (a1 @ a2 @ START_OF_FRAME # m @ END_OF_FRAME # c)
           = (length a1 + length a2, length a1 + length a2 + 1 + length m)"
proof -
  have "find_frame 0 UINT_MAX (a1 @ a2 @ START_OF_FRAME # m @ END_OF_FRAME # c)
          = find_frame (length a1) UINT_MAX (a2 @ START_OF_FRAME # m @ END_OF_FRAME # c)"
    using find_frame_skip_no_start [OF assms(1), of 0] assms(5) by simp
  also have "\<dots> = find_frame (length a1 + length a2) UINT_MAX (START_OF_FRAME # m @ END_OF_FRAME # c)"
    by (rule find_frame_skip_no_end [OF assms(2)])
  also have "\<dots> = find_frame (Suc (length a1 + length a2)) (length a1 + length a2) (m @ END_OF_FRAME # c)"
    by simp
  also have "\<dots> = find_frame (Suc (length a1 + length a2) + length m) (length a1 + length a2) (END_OF_FRAME # c)"
    by (rule find_frame_skip_plain [OF assms(3,4)])
  also have "\<dots> = (length a1 + length a2, length a1 + length a2 + 1 + length m)"
    by simp
  finally show ?thesis .
qed

lemma decode_not_found:
  "fst (find_frame 0 UINT_MAX buffer) = UINT_MAX \<or> snd (find_frame 0 UINT_MAX buffer) = UINT_MAX
     \<Longrightarrow> decode sz rxBytes buffer = Inr (False, data_reset)"
  by (auto simp: decode_def Let_def split: prod.splits)

lemma ends_before_starts:
  assumes "\<forall>i<length buf. \<forall>j<length buf. buf ! i = END_OF_FRAME \<and> buf ! j = START_OF_FRAME \<longrightarrow> i < j"
    and "START_OF_FRAME \<in> set buf"
  shows "\<exists>a b. buf = a @ START_OF_FRAME # b \<and> START_OF_FRAME \<notin> set a \<and> END_OF_FRAME \<notin> set b"
proof -
  from assms(2) obtain a b where ab: "buf = a @ START_OF_FRAME # b" "START_OF_FRAME \<notin> set a"
    by (auto dest: split_list_first)
  have "END_OF_FRAME \<notin> set b"
  proof
    assume "END_OF_FRAME \<in> set b"
    then obtain k where k: "k < length b" "b ! k = END_OF_FRAME"
      by (auto simp: in_set_conv_nth)
    have "buf ! (length a + 1 + k) = END_OF_FRAME" "buf ! length a = START_OF_FRAME"
      using k ab by (simp_all add: nth_append)
    moreover have "length a + 1 + k < length buf" "length a < length buf"
      using k ab by simp_all
    ultimately have "length a + 1 + k < length a"
      using assms(1) by blast
    then show False by simp
  qed
  with ab show ?thesis by blast
qed

lemma find_frame_prefix_no_start:
  "START_OF_FRAME \<notin> set a \<Longrightarrow>
     fst (find_frame i UINT_MAX (a @ rest)) = UINT_MAX \<or>
     find_frame i UINT_MAX (a @ rest) = find_frame (i + length a) UINT_MAX rest"
proof (induction a arbitrary: i)
  case Nil
  then show ?case by simp
next
  case (Cons c a)
  then have "START_OF_FRAME \<notin> set a" "c \<noteq> START_OF_FRAME"
    by auto
  with Cons.IH [of "Suc i"] show ?case
    by auto
qed

lemma first_frameD:
  assumes "first_frame buffer pre body post"
  shows "buffer = pre @ START_OF_FRAME # body @ END_OF_FRAME # post"
    and "END_OF_FRAME \<notin> set (dropWhile (\<lambda>c. c \<noteq> START_OF_FRAME) pre)"
    and "START_OF_FRAME \<notin> set body" and "END_OF_FRAME \<notin> set body"
    and "length buffer \<le> UINT_MAX"
    and "length buffer = length pre + length body + length post + 2"
  using assms unfolding first_frame_def by auto

lemma first_frame_found:
  assumes "first_frame buffer pre body post"
  shows "find_frame 0 UINT_MAX buffer = (length pre, length pre + 1 + length body)"
proof -
  let ?a1 = "takeWhile (\<lambda>c. c \<noteq> START_OF_FRAME) pre"
  let ?a2 = "dropWhile (\<lambda>c. c \<noteq> START_OF_FRAME) pre"
  have pre: "pre = ?a1 @ ?a2"
    by simp
  have a1: "START_OF_FRAME \<notin> set ?a1"
    by (auto dest: set_takeWhileD)
  note ff = first_frameD [OF assms]
  have "length pre \<le> length buffer" "length buffer \<le> UINT_MAX"
    using ff(5,6) by simp_all
  then have len: "length ?a1 \<le> UINT_MAX"
    using length_takeWhile_le [of "\<lambda>c. c \<noteq> START_OF_FRAME" pre] by linarith
  have "find_frame 0 UINT_MAX (?a1 @ ?a2 @ START_OF_FRAME # body @ END_OF_FRAME # post)
          = (length ?a1 + length ?a2, length ?a1 + length ?a2 + 1 + length body)"
    using ff a1 len by (intro find_frame_found) simp_all
  moreover have "length ?a1 + length ?a2 = length pre"
    by (metis length_append pre)
  moreover have "buffer = ?a1 @ ?a2 @ START_OF_FRAME # body @ END_OF_FRAME # post"
    using ff(1) by simp
  ultimately show ?thesis
    by simp
qed

text \<open>
  Claim C3. If the buffer holds no start-of-frame marker, or if every
  end-of-frame marker of the buffer comes before every start-of-frame marker,
  \<open>decode\<close> returns failure and the record is in its cleared state.
\<close>
theorem no_frame:
  assumes "START_OF_FRAME \<notin> set buffer \<or>
     (\<forall>i<length buffer. \<forall>j<length buffer.
        buffer ! i = END_OF_FRAME \<and> buffer ! j = START_OF_FRAME \<longrightarrow> i < j)"
  shows "decode sz rxBytes buffer = Inr (False, data_reset)"
proof (cases "START_OF_FRAME \<in> set buffer")
  case False
  then show ?thesis
    by (simp add: decode_not_found find_frame_no_start)
next
  case True
  with assms obtain a b where ab: "buffer = a @ START_OF_FRAME # b"
    "START_OF_FRAME \<notin> set a" "END_OF_FRAME \<notin> set b"
    using ends_before_starts by blast
  have "snd (find_frame (length a) UINT_MAX (START_OF_FRAME # b)) = UINT_MAX"
    using ab(3) by (simp add: find_frame_no_end)
  with find_frame_prefix_no_start [OF ab(2), of 0 "START_OF_FRAME # b"]
  have "fst (find_frame 0 UINT_MAX buffer) = UINT_MAX \<or> snd (find_frame 0 UINT_MAX buffer) = UINT_MAX"
    unfolding ab(1) by auto
  then show ?thesis
    by (rule decode_not_found)
qed

theorem no_frame_witness:
  "decode example_sizes 3 ''abc'' = Inr (False, data_reset)
   \<and> decode example_sizes 5 [CHR ''a'', CHR 0x03, CHR 0x03, CHR 0x02, CHR ''b''] = Inr (False, data_reset)"
proof -
  have h1: "START_OF_FRAME \<notin> set ''abc''"
    by (simp add: START_OF_FRAME_def)
  have h2: "\<forall>i<length [CHR ''a'', CHR 0x03, CHR 0x03, CHR 0x02, CHR ''b''].
     \<forall>j<length [CHR ''a'', CHR 0x03, CHR 0x03, CHR 0x02, CHR ''b''].
        [CHR ''a'', CHR 0x03, CHR 0x03, CHR 0x02, CHR ''b''] ! i = END_OF_FRAME
        \<and> [CHR ''a'', CHR 0x03, CHR 0x03, CHR 0x02, CHR ''b''] ! j = START_OF_FRAME \<longrightarrow> i < j"
    by (simp add: START_OF_FRAME_def END_OF_FRAME_def All_less_Suc nth_Cons')
  show ?thesis
    using no_frame [of "''abc''" example_sizes 3, OF disjI1, OF h1]
      no_frame [of "[CHR ''a'', CHR 0x03, CHR 0x03, CHR 0x02, CHR ''b'']" example_sizes 5, OF disjI2, OF h2]
    by simp
qed

lemma first_frame_at:
  assumes "length buffer \<le> UINT_MAX"
    and "e < length buffer" and "buffer ! e = END_OF_FRAME"
    and "\<exists>s<e. buffer ! s = START_OF_FRAME"
    and "\<forall>k<e. buffer ! k = END_OF_FRAME \<longrightarrow> (\<forall>s<k. buffer ! s \<noteq> START_OF_FRAME)"
  shows "\<exists>pre body post. first_frame buffer pre body post \<and> length pre + 1 + length body = e"
proof -
  have buf: "buffer = take e buffer @ END_OF_FRAME # drop (Suc e) buffer"
    using assms(2,3) id_take_nth_drop by fastforce
  have le: "length (take e buffer) = e"
    using assms(2) by simp
  from assms(4) obtain s where s: "s < e" "buffer ! s = START_OF_FRAME"
    by blast
  then have "take e buffer ! s = START_OF_FRAME"
    by simp
  then have "START_OF_FRAME \<in> set (take e buffer)"
    using s(1) le by (metis nth_mem)
  then obtain pre body where pb: "take e buffer = pre @ START_OF_FRAME # body"
    "START_OF_FRAME \<notin> set body"
    by (auto dest: split_list_last)
  have e: "e = length pre + 1 + length body"
    using le unfolding pb(1) by simp
  have at: "buffer ! k = (pre @ START_OF_FRAME # body) ! k" if "k < e" for k
    using that pb(1) by (metis nth_take)
  have nb: "END_OF_FRAME \<notin> set body"
  proof
    assume "END_OF_FRAME \<in> set body"
    then obtain k where k: "k < length body" "body ! k = END_OF_FRAME"
      by (auto simp: in_set_conv_nth)
    have "buffer ! (length pre + 1 + k) = END_OF_FRAME"
      using k e by (subst at) (simp_all add: nth_append)
    moreover have "buffer ! length pre = START_OF_FRAME"
      using e by (subst at) simp_all
    moreover have "length pre + 1 + k < e" "length pre < length pre + 1 + k"
      using k e by simp_all
    ultimately show False
      using assms(5) by blast
  qed
  define a where "a = takeWhile (\<lambda>c. c \<noteq> START_OF_FRAME) pre"
  define d where "d = dropWhile (\<lambda>c. c \<noteq> START_OF_FRAME) pre"
  have pre: "pre = a @ d"
    by (simp add: a_def d_def)
  have at': "buffer ! k = (a @ d @ START_OF_FRAME # body) ! k" if "k < e" for k
    using at [OF that] unfolding pre by simp
  have e': "e = length a + length d + 1 + length body"
    using e unfolding pre by simp
  have np: "END_OF_FRAME \<notin> set d"
  proof
    assume "END_OF_FRAME \<in> set d"
    then obtain k where k: "k < length d" "d ! k = END_OF_FRAME"
      by (auto simp: in_set_conv_nth)
    have "d \<noteq> []"
      using k(1) by (metis list.size(3) not_less_zero)
    then have "hd d = START_OF_FRAME"
      unfolding d_def using hd_dropWhile [of "\<lambda>c. c \<noteq> START_OF_FRAME" pre] by simp
    then have h: "d ! 0 = START_OF_FRAME"
      using \<open>d \<noteq> []\<close> by (simp add: hd_conv_nth)
    have k0: "0 < k"
      using k(2) h by (cases k) auto
    have "buffer ! (length a + k) = END_OF_FRAME"
      using k e' by (subst at') (simp_all add: nth_append)
    moreover have "buffer ! (length a + 0) = START_OF_FRAME"
      using k h e' by (subst at') (simp_all add: nth_append)
    moreover have "length a + k < e" "length a + 0 < length a + k"
      using k(1) e' k0 by simp_all
    ultimately show False
      using assms(5) by blast
  qed
  have "buffer = pre @ START_OF_FRAME # body @ END_OF_FRAME # drop (Suc e) buffer"
    using buf unfolding pb(1) by simp
  then have "first_frame buffer pre body (drop (Suc e) buffer)"
    using np pb(2) nb assms(1) unfolding first_frame_def d_def by blast
  with e show ?thesis
    by auto
qed

text \<open>
  Claim C6. Let \<open>e\<close> be the index of the first end-of-frame marker that follows
  some start-of-frame marker, in a buffer whose indices are values of
  \<^verbatim>\<open>unsigned int\<close> below \<^verbatim>\<open>UINT_MAX\<close>. Then the scan stops at \<open>e\<close>, and the frame
  begins at the last start-of-frame index before \<open>e\<close>: a start marker is there,
  and no other lies between it and \<open>e\<close>, however many come before it.
\<close>
theorem last_start_wins:
  assumes "length buffer \<le> UINT_MAX"
    and "e < length buffer" and "buffer ! e = END_OF_FRAME"
    and "\<exists>s<e. buffer ! s = START_OF_FRAME"
    and "\<forall>k<e. buffer ! k = END_OF_FRAME \<longrightarrow> (\<forall>s<k. buffer ! s \<noteq> START_OF_FRAME)"
  shows "\<exists>s<e. find_frame 0 UINT_MAX buffer = (s, e) \<and> buffer ! s = START_OF_FRAME
            \<and> (\<forall>k. s < k \<and> k < e \<longrightarrow> buffer ! k \<noteq> START_OF_FRAME)"
proof -
  obtain pre body post where ff: "first_frame buffer pre body post"
    and e: "length pre + 1 + length body = e"
    using first_frame_at [OF assms] by blast
  note d = first_frameD [OF ff]
  have "find_frame 0 UINT_MAX buffer = (length pre, e)"
    using first_frame_found [OF ff] e by simp
  moreover have "buffer ! length pre = START_OF_FRAME"
    unfolding d(1) by simp
  moreover have "buffer ! k \<noteq> START_OF_FRAME" if "length pre < k" "k < e" for k
  proof -
    have j: "k - length pre - 1 < length body" "k = length pre + 1 + (k - length pre - 1)"
      using that e by simp_all
    have "buffer ! (length pre + 1 + j) = body ! j" if "j < length body" for j
      unfolding d(1) using that by (simp add: nth_append)
    from this [OF j(1)] have "buffer ! k = body ! (k - length pre - 1)"
      by (subst j(2))
    then show ?thesis
      using d(3) j(1) by (metis nth_mem)
  qed
  moreover have "length pre < e"
    using e by simp
  ultimately show ?thesis
    by blast
qed

theorem last_start_wins_witness:
  "find_frame 0 UINT_MAX
        [CHR ''a'', CHR 0x03, CHR 0x02, CHR ''b'', CHR 0x02, CHR 0x02, CHR ''c'', CHR ''d'',
         CHR 0x03, CHR 0x02, CHR 0x03] = (5, 8)
   \<and> (\<exists>s<8. find_frame 0 UINT_MAX
        [CHR ''a'', CHR 0x03, CHR 0x02, CHR ''b'', CHR 0x02, CHR 0x02, CHR ''c'', CHR ''d'',
         CHR 0x03, CHR 0x02, CHR 0x03] = (s, 8)
        \<and> [CHR ''a'', CHR 0x03, CHR 0x02, CHR ''b'', CHR 0x02, CHR 0x02, CHR ''c'', CHR ''d'',
         CHR 0x03, CHR 0x02, CHR 0x03] ! s = START_OF_FRAME
        \<and> (\<forall>k. s < k \<and> k < 8 \<longrightarrow>
         [CHR ''a'', CHR 0x03, CHR 0x02, CHR ''b'', CHR 0x02, CHR 0x02, CHR ''c'', CHR ''d'',
         CHR 0x03, CHR 0x02, CHR 0x03] ! k \<noteq> START_OF_FRAME))"
proof -
  let ?b = "[CHR ''a'', CHR 0x03, CHR 0x02, CHR ''b'', CHR 0x02, CHR 0x02, CHR ''c'', CHR ''d'',
         CHR 0x03, CHR 0x02, CHR 0x03]"
  have h1: "length ?b \<le> UINT_MAX" "8 < length ?b" "?b ! 8 = END_OF_FRAME"
    by (simp_all add: UINT_MAX_def END_OF_FRAME_def)
  have "(2::nat) < 8 \<and> ?b ! 2 = START_OF_FRAME"
    by (simp add: START_OF_FRAME_def)
  then have h2: "\<exists>s<8. ?b ! s = START_OF_FRAME"
    by (rule exI)
  have h3: "\<forall>k<8. ?b ! k = END_OF_FRAME \<longrightarrow> (\<forall>s<k. ?b ! s \<noteq> START_OF_FRAME)"
    by (simp add: START_OF_FRAME_def END_OF_FRAME_def All_less_Suc nth_Cons' eval_nat_numeral)
  have "find_frame 0 UINT_MAX ?b = (5, 8)"
    by (simp add: START_OF_FRAME_def END_OF_FRAME_def UINT_MAX_def)
  with last_start_wins [OF h1 h2 h3] show ?thesis
    by (intro conjI)
qed

subsection \<open>What the search reads\<close>

lemma find_frame_prefix:
  assumes "find_frame i s buf = (s', e)" and "e \<noteq> UINT_MAX"
  shows "i \<le> e \<and> e < i + length buf \<and>
     (\<forall>buf'. take (e + 1 - i) buf' = take (e + 1 - i) buf \<longrightarrow> find_frame i s buf' = (s', e))"
  using assms
proof (induction buf arbitrary: i s)
  case Nil
  then show ?case by simp
next
  case (Cons c cs)
  show ?case
  proof (cases "c \<noteq> START_OF_FRAME \<and> c = END_OF_FRAME \<and> s < i")
    case True
    then have e: "s' = s" "e = i"
      using Cons.prems(1) by simp_all
    have "find_frame i s buf' = (s, i)" if eq1: "take (Suc 0) buf' = [c]" for buf'
    proof -
      obtain cs' where "buf' = c # cs'"
        using eq1 by (cases buf') auto
      then show ?thesis
        using True by simp
    qed
    then show ?thesis
      by (simp add: e)
  next
    case False
    define s1 where "s1 = (if c = START_OF_FRAME then i else s)"
    have rec: "find_frame i s (c # xs) = find_frame (Suc i) s1 xs" for xs
      using False by (auto simp: s1_def)
    have "find_frame (Suc i) s1 cs = (s', e)"
      using Cons.prems(1) by (simp only: rec)
    from Cons.IH [OF this Cons.prems(2)]
    have le: "Suc i \<le> e" and lt: "e < Suc i + length cs"
      and pre: "\<And>cs'. take (e + 1 - Suc i) cs' = take (e + 1 - Suc i) cs
                  \<Longrightarrow> find_frame (Suc i) s1 cs' = (s', e)"
      by blast+
    have "find_frame i s buf' = (s', e)"
      if eq: "take (e + 1 - i) buf' = take (e + 1 - i) (c # cs)" for buf'
    proof -
      have k: "e + 1 - i = Suc (e + 1 - Suc i)"
        using le by simp
      obtain cs' where b: "buf' = c # cs'"
        using eq unfolding k by (cases buf') auto
      have "take (e + 1 - Suc i) cs' = take (e + 1 - Suc i) cs"
        using eq unfolding k b by simp
      then show ?thesis
        unfolding b rec by (rule pre)
    qed
    then show ?thesis
      using le lt by simp
  qed
qed

lemma usub_le: "b \<le> a \<Longrightarrow> usub a b \<le> a - b"
proof -
  assume "b \<le> a"
  then have "0 \<le> int a - int b"
    by simp
  then have "(int a - int b) mod 2 ^ 32 \<le> int a - int b"
    by (rule zmod_le_nonneg_dividend)
  then show ?thesis
    using \<open>b \<le> a\<close> by (simp add: usub_def nat_le_iff)
qed

lemma memcpy_prefix:
  assumes "take k b' = take k b" and "off + n \<le> k" and "k \<le> length b"
  shows "memcpy d cap b' off n = memcpy d cap b off n"
proof -
  have "length (take k b') = length (take k b)"
    using assms(1) by simp
  then have len: "k \<le> length b'"
    using assms(3) by simp
  have "take (off + n) (take k b') = take (off + n) (take k b)"
    using assms(1) by simp
  then have "take (off + n) b' = take (off + n) b"
    using assms(2) by (simp add: min_def)
  then have "drop off (take (n + off) b') = drop off (take (n + off) b)"
    by (simp add: add.commute)
  then have "take n (drop off b') = take n (drop off b)"
    by (simp only: take_drop)
  then show ?thesis
    using len assms(2,3) by (simp add: memcpy_def)
qed

lemma decode_prefix:
  assumes "length buffer' = length buffer"
    and "take (scanned buffer) buffer' = take (scanned buffer) buffer"
  shows "decode sz rxBytes' buffer' = decode sz rxBytes buffer"
proof -
  obtain s e where fe: "find_frame 0 UINT_MAX buffer = (s, e)"
    by (cases "find_frame 0 UINT_MAX buffer")
  show ?thesis
  proof (cases "e = UINT_MAX")
    case True
    then have "buffer' = buffer"
      using assms by (simp add: scanned_def fe)
    then show ?thesis
      by (simp add: decode_def)
  next
    case False
    then have sc: "scanned buffer = e + 1"
      by (simp add: scanned_def fe)
    have lt: "e < length buffer"
      and fe': "find_frame 0 UINT_MAX buffer' = (s, e)"
      using find_frame_prefix [OF fe False] assms(2) by (simp_all add: sc)
    have "memcpy ''frame'' 200 buffer' s (usub e s) = memcpy ''frame'' 200 buffer s (usub e s)"
      if "s \<le> e"
      using assms(2) usub_le [OF that] lt that unfolding sc
      by (intro memcpy_prefix [where k = "e + 1"]) simp_all
    then show ?thesis
      by (auto simp: decode_def fe fe')
  qed
qed

section \<open>The search for the groups\<close>

lemma length_positions: "length (positions c i xs) = count_list xs c"
  by (induction xs arbitrary: i) auto

lemma positions_append:
  "positions c i (xs @ ys) = positions c i xs @ positions c (i + length xs) ys"
  by (induction xs arbitrary: i) auto

lemma positions_none: "c \<notin> set xs \<Longrightarrow> positions c i xs = []"
  by (induction xs arbitrary: i) auto

lemma positions_bound: "p \<in> set (positions c i xs) \<Longrightarrow> i \<le> p \<and> p < i + length xs"
  by (induction xs arbitrary: i) (fastforce split: if_splits)+

lemma find_groups_positions:
  assumes "si + count_list cs START_OF_GROUP \<le> length sg"
    and "ei + count_list cs END_OF_GROUP \<le> length eg"
  shows "find_groups i cs (sg, eg, si, ei) =
     Inr (take si sg @ positions START_OF_GROUP i cs
            @ drop (si + count_list cs START_OF_GROUP) sg,
          take ei eg @ positions END_OF_GROUP i cs
            @ drop (ei + count_list cs END_OF_GROUP) eg,
          si + count_list cs START_OF_GROUP, ei + count_list cs END_OF_GROUP)"
  using assms
proof (induction cs arbitrary: i sg eg si ei)
  case Nil
  then show ?case by simp
next
  case (Cons c cs)
  show ?case
  proof (cases "c = START_OF_GROUP")
    case True
    have lt: "si < length sg"
      using Cons.prems(1) True by simp
    have "find_groups i (c # cs) (sg, eg, si, ei)
            = find_groups (Suc i) cs (sg[si := i], eg, Suc si, ei)"
      using True lt by simp
    also have "\<dots> = Inr (take (Suc si) (sg[si := i]) @ positions START_OF_GROUP (Suc i) cs
            @ drop (Suc si + count_list cs START_OF_GROUP) (sg[si := i]),
          take ei eg @ positions END_OF_GROUP (Suc i) cs
            @ drop (ei + count_list cs END_OF_GROUP) eg,
          Suc si + count_list cs START_OF_GROUP, ei + count_list cs END_OF_GROUP)"
      using Cons.prems True by (intro Cons.IH) simp_all
    also have "take (Suc si) (sg[si := i]) = take si sg @ [i]"
      using lt by (simp add: take_Suc_conv_app_nth)
    finally show ?thesis
      using True by simp
  next
    case False
    note nstart = False
    show ?thesis
    proof (cases "c = END_OF_GROUP")
      case True
      have lt: "ei < length eg"
        using Cons.prems(2) True by simp
      have "find_groups i (c # cs) (sg, eg, si, ei)
              = find_groups (Suc i) cs (sg, eg[ei := i], si, Suc ei)"
        using True lt by simp
      also have "\<dots> = Inr (take si sg @ positions START_OF_GROUP (Suc i) cs
              @ drop (si + count_list cs START_OF_GROUP) sg,
            take (Suc ei) (eg[ei := i]) @ positions END_OF_GROUP (Suc i) cs
              @ drop (Suc ei + count_list cs END_OF_GROUP) (eg[ei := i]),
            si + count_list cs START_OF_GROUP, Suc ei + count_list cs END_OF_GROUP)"
        using Cons.prems True by (intro Cons.IH) simp_all
      also have "take (Suc ei) (eg[ei := i]) = take ei eg @ [i]"
        using lt by (simp add: take_Suc_conv_app_nth)
      finally show ?thesis
        using True by simp
    next
      case False
      then show ?thesis
        using nstart Cons.prems by (simp add: Cons.IH)
    qed
  qed
qed

lemma usub_minus: "b \<le> a \<Longrightarrow> a \<le> UINT_MAX \<Longrightarrow> usub a b = a - b"
  by (simp add: usub_def UINT_MAX_def nat_diff_distrib')

lemma first_frame_decode:
  assumes "first_frame buffer pre body post" and "length body < 200"
  shows "decode sz rxBytes buffer
           = decode_frame sz (START_OF_FRAME # body @ replicate (199 - length body) NUL) data_reset"
proof -
  let ?s = "length pre" and ?e = "length pre + 1 + length body"
  note ff = first_frameD [OF assms(1)]
  note buf = ff(1) and len = ff(5)
  have e: "?e < UINT_MAX"
    using len ff(6) by linarith
  have n: "usub ?e ?s = 1 + length body"
    using e by (subst usub_minus) simp_all
  have "take (1 + length body) (drop ?s buffer) = START_OF_FRAME # body"
    by (simp add: buf)
  then have "memcpy ''frame'' 200 buffer ?s (usub ?e ?s)
          = Inr (START_OF_FRAME # body @ replicate (199 - length body) NUL)"
    using assms(2) unfolding n memcpy_def by (simp add: buf)
  then show ?thesis
    using e by (simp add: decode_def first_frame_found [OF assms(1)])
qed

lemma decode_frame_no_group:
  assumes "FRAME_SIZE sz \<le> length frame"
    and "count_list (take (FRAME_SIZE sz) frame) START_OF_GROUP \<le> GROUP_COUNT sz"
    and "count_list (take (FRAME_SIZE sz) frame) END_OF_GROUP \<le> GROUP_COUNT sz"
    and "count_list (take (FRAME_SIZE sz) frame) START_OF_GROUP = 0
       \<or> count_list (take (FRAME_SIZE sz) frame) END_OF_GROUP = 0
       \<or> count_list (take (FRAME_SIZE sz) frame) START_OF_GROUP
            \<noteq> count_list (take (FRAME_SIZE sz) frame) END_OF_GROUP"
  shows "decode_frame sz frame data = Inr (False, data)"
proof -
  let ?cs = "take (FRAME_SIZE sz) frame"
  let ?init = "UINT_MAX # replicate (GROUP_COUNT sz - 1) 0"
  let ?P = "positions START_OF_GROUP 0 ?cs" and ?Q = "positions END_OF_GROUP 0 ?cs"
  have fg: "find_groups 0 ?cs (?init, ?init, 0, 0)
          = Inr (?P @ drop (count_list ?cs START_OF_GROUP) ?init,
                 ?Q @ drop (count_list ?cs END_OF_GROUP) ?init,
                 count_list ?cs START_OF_GROUP, count_list ?cs END_OF_GROUP)"
    using assms(2,3) find_groups_positions [of 0 ?cs ?init 0 ?init 0] by simp
  have P0: "(?P @ drop (count_list ?cs START_OF_GROUP) ?init) ! 0 = UINT_MAX"
    if "count_list ?cs START_OF_GROUP = 0"
  proof -
    have "?P = []"
      using that length_positions [of START_OF_GROUP 0 ?cs] by simp
    then show ?thesis
      using that by simp
  qed
  have Q0: "(?Q @ drop (count_list ?cs END_OF_GROUP) ?init) ! 0 = UINT_MAX"
    if "count_list ?cs END_OF_GROUP = 0"
  proof -
    have "?Q = []"
      using that length_positions [of END_OF_GROUP 0 ?cs] by simp
    then show ?thesis
      using that by simp
  qed
  show ?thesis
    using assms(1,4) P0 Q0 unfolding decode_frame_def fg by auto
qed

lemma count_list_replicate_other: "c \<noteq> x \<Longrightarrow> count_list (replicate n x) c = 0"
  by (induction n) simp_all

lemma take_padded:
  assumes "length xs \<le> n" "n \<le> length xs + k"
  shows "take n (xs @ replicate k NUL) = xs @ replicate (n - length xs) NUL"
  using assms by (auto simp: min_def)

text \<open>
  Within the sizes of the decoder, that is for a frame that fits the array
  \<^verbatim>\<open>frame\<close> and the loop bound \<^verbatim>\<open>FRAME_SIZE\<close>, with no more group markers of
  either kind than the index arrays have cells: if the frame has no
  start-of-group marker, or no end-of-group marker, or not as many of the one as
  of the other, \<open>decode\<close> returns failure and the record is in its cleared state.
\<close>
lemma no_group_within_sizes:
  assumes "first_frame buffer pre body post"
    and "1 + length body \<le> FRAME_SIZE sz" and "FRAME_SIZE sz \<le> 200"
    and "count_list body START_OF_GROUP \<le> GROUP_COUNT sz"
    and "count_list body END_OF_GROUP \<le> GROUP_COUNT sz"
    and "count_list body START_OF_GROUP = 0 \<or> count_list body END_OF_GROUP = 0
         \<or> count_list body START_OF_GROUP \<noteq> count_list body END_OF_GROUP"
  shows "decode sz rxBytes buffer = Inr (False, data_reset)"
proof -
  let ?frame = "START_OF_FRAME # body @ replicate (199 - length body) NUL"
  have len: "length body < 200" "length ?frame = 200"
    using assms(2,3) by simp_all
  have "take (FRAME_SIZE sz) ((START_OF_FRAME # body) @ replicate (199 - length body) NUL)
          = (START_OF_FRAME # body) @ replicate (FRAME_SIZE sz - length (START_OF_FRAME # body)) NUL"
    using assms(2,3) by (intro take_padded) simp_all
  then have cnt: "count_list (take (FRAME_SIZE sz) ?frame) START_OF_GROUP
                    = count_list body START_OF_GROUP"
      "count_list (take (FRAME_SIZE sz) ?frame) END_OF_GROUP = count_list body END_OF_GROUP"
    by (simp_all add: count_list_replicate_other)
  have "decode_frame sz ?frame data_reset = Inr (False, data_reset)"
    using assms(3-6) len(2) by (intro decode_frame_no_group) (simp_all only: cnt)
  then show ?thesis
    by (simp add: first_frame_decode [OF assms(1) len(1)])
qed

lemma no_group_within_sizes_example:
  "first_frame [CHR 0x03, CHR 0x02, CHR 0x0A, CHR ''A'', CHR 0x03, CHR 0x0D]
      [CHR 0x03] [CHR 0x0A, CHR ''A''] [CHR 0x0D]
   \<and> decode example_sizes 6 [CHR 0x03, CHR 0x02, CHR 0x0A, CHR ''A'', CHR 0x03, CHR 0x0D]
       = Inr (False, data_reset)"
proof -
  have h: "first_frame [CHR 0x03, CHR 0x02, CHR 0x0A, CHR ''A'', CHR 0x03, CHR 0x0D]
      [CHR 0x03] [CHR 0x0A, CHR ''A''] [CHR 0x0D]"
    by (simp add: first_frame_def START_OF_FRAME_def END_OF_FRAME_def UINT_MAX_def)
  show ?thesis
    using h no_group_within_sizes [OF h, of example_sizes 6]
    by (simp add: example_sizes_def START_OF_GROUP_def END_OF_GROUP_def)
qed

subsection \<open>More markers than cells\<close>

text \<open>
  The index arrays have \<^verbatim>\<open>GROUP_COUNT\<close> cells, one at least, and the loop over the
  frame stores the index of every group marker it meets without comparing
  \<^verbatim>\<open>startOfGroupIndex\<close> and \<^verbatim>\<open>endOfGroupIndex\<close> with that number.
\<close>
lemma count_list_take_le: "count_list (take n xs) c \<le> count_list xs c"
proof (induction xs arbitrary: n)
  case Nil
  show ?case by simp
next
  case (Cons x xs)
  show ?case
    using Cons.IH [of "n - 1"] by (cases n) (simp_all add: le_SucI)
qed

lemma count_list_replicate_same: "count_list (replicate n x) x = n"
  by (induction n) simp_all

lemma decode_frame_cut:
  assumes "FRAME_SIZE sz \<le> length frame"
    and "END_OF_GROUP \<notin> set (take (FRAME_SIZE sz) frame)"
    and "count_list (take (FRAME_SIZE sz) frame) START_OF_GROUP \<le> Suc (GROUP_COUNT sz - 1)"
  shows "decode_frame sz frame data = Inr (False, data)"
proof -
  let ?cs = "take (FRAME_SIZE sz) frame"
  let ?init = "UINT_MAX # replicate (GROUP_COUNT sz - 1) 0"
  have c0: "count_list ?cs END_OF_GROUP = 0"
    using assms(2) by (simp add: count_list_0_iff)
  have "find_groups 0 ?cs (?init, ?init, 0, 0)
          = Inr (positions START_OF_GROUP 0 ?cs @ drop (count_list ?cs START_OF_GROUP) ?init,
                 positions END_OF_GROUP 0 ?cs @ drop (count_list ?cs END_OF_GROUP) ?init,
                 count_list ?cs START_OF_GROUP, count_list ?cs END_OF_GROUP)"
    using assms(3) c0 find_groups_positions [of 0 ?cs ?init 0 ?init 0] by simp
  moreover have "positions END_OF_GROUP 0 ?cs = []"
    using assms(2) by (rule positions_none)
  ultimately show ?thesis
    using assms(1) c0 unfolding decode_frame_def by simp
qed

lemma find_groups_starts_overflow:
  "length sg - si < k \<Longrightarrow> si \<le> length sg \<Longrightarrow>
     find_groups i (replicate k START_OF_GROUP @ rest) (sg, eg, si, ei)
       = Inl (Overflow ''startOfGroup'')"
proof (induction k arbitrary: i sg si)
  case 0
  then show ?case by simp
next
  case (Suc k)
  show ?case
  proof (cases "si < length sg")
    case True
    have "find_groups (Suc i) (replicate k START_OF_GROUP @ rest) (sg[si := i], eg, Suc si, ei)
            = Inl (Overflow ''startOfGroup'')"
      using Suc.prems True by (intro Suc.IH) simp_all
    then show ?thesis
      using True by simp
  next
    case False
    then show ?thesis
      by simp
  qed
qed

lemma find_groups_ends_overflow:
  "length eg - ei < k \<Longrightarrow> ei \<le> length eg \<Longrightarrow>
     find_groups i (replicate k END_OF_GROUP @ rest) (sg, eg, si, ei)
       = Inl (Overflow ''endOfGroup'')"
proof (induction k arbitrary: i eg ei)
  case 0
  then show ?case by simp
next
  case (Suc k)
  show ?case
  proof (cases "ei < length eg")
    case True
    have "find_groups (Suc i) (replicate k END_OF_GROUP @ rest) (sg, eg[ei := i], si, Suc ei)
            = Inl (Overflow ''endOfGroup'')"
      using Suc.prems True by (intro Suc.IH) simp_all
    then show ?thesis
      using True by simp
  next
    case False
    then show ?thesis
      by simp
  qed
qed

lemma start_markers_only:
  assumes "k \<le> 199"
  shows "decode sz rxBytes (START_OF_FRAME # replicate k START_OF_GROUP @ [END_OF_FRAME])
     = (if 200 < FRAME_SIZE sz then Inl (Overread ''frame'')
        else if max 1 (GROUP_COUNT sz) < min k (FRAME_SIZE sz - 1)
             then Inl (Overflow ''startOfGroup'')
        else Inr (False, data_reset))"
proof -
  let ?body = "replicate k START_OF_GROUP"
  let ?init = "UINT_MAX # replicate (GROUP_COUNT sz - 1) 0"
  define frame where "frame = START_OF_FRAME # ?body @ replicate (199 - length ?body) NUL"
  define m where "m = min k (FRAME_SIZE sz - 1)"
  have ff: "first_frame (START_OF_FRAME # ?body @ [END_OF_FRAME]) [] ?body []"
    using assms by (simp add: first_frame_def UINT_MAX_def)
  have dec: "decode sz rxBytes (START_OF_FRAME # ?body @ [END_OF_FRAME])
          = decode_frame sz frame data_reset"
    unfolding frame_def using assms by (intro first_frame_decode [OF ff]) simp
  have len: "length frame = 200"
    using assms by (simp add: frame_def)
  have tk: "take (FRAME_SIZE sz) frame
              = START_OF_FRAME # replicate m START_OF_GROUP
                  @ replicate (min (FRAME_SIZE sz - 1 - k) (199 - k)) NUL"
    if "0 < FRAME_SIZE sz"
    using that by (cases "FRAME_SIZE sz") (simp_all add: frame_def m_def min.commute)
  have "decode_frame sz frame data_reset
     = (if 200 < FRAME_SIZE sz then Inl (Overread ''frame'')
        else if max 1 (GROUP_COUNT sz) < m then Inl (Overflow ''startOfGroup'')
        else Inr (False, data_reset))"
  proof (cases "200 < FRAME_SIZE sz")
    case True
    then show ?thesis
      by (simp add: decode_frame_def len)
  next
    case False
    note le = False
    show ?thesis
    proof (cases "max 1 (GROUP_COUNT sz) < m")
      case True
      then have pos: "0 < FRAME_SIZE sz"
        by (cases "FRAME_SIZE sz") (simp_all add: m_def)
      have "Suc (GROUP_COUNT sz - 1) < m"
        using True by arith
      then have "find_groups 1 (replicate m START_OF_GROUP
               @ replicate (min (FRAME_SIZE sz - 1 - k) (199 - k)) NUL) (?init, ?init, 0, 0)
              = Inl (Overflow ''startOfGroup'')"
        by (intro find_groups_starts_overflow) simp_all
      then have "find_groups 0 (take (FRAME_SIZE sz) frame) (?init, ?init, 0, 0)
              = Inl (Overflow ''startOfGroup'')"
        unfolding tk [OF pos] by simp
      then show ?thesis
        using True le len by (simp add: decode_frame_def)
    next
      case False
      have a: "END_OF_GROUP \<notin> set (take (FRAME_SIZE sz) frame)"
      proof (cases "0 < FRAME_SIZE sz")
        case True
        show ?thesis
          unfolding tk [OF True]
          by (auto simp: NUL_def END_OF_GROUP_def START_OF_FRAME_def START_OF_GROUP_def)
      next
        case False
        then show ?thesis by simp
      qed
      have b: "count_list (take (FRAME_SIZE sz) frame) START_OF_GROUP \<le> Suc (GROUP_COUNT sz - 1)"
      proof (cases "0 < FRAME_SIZE sz")
        case True
        have "count_list (take (FRAME_SIZE sz) frame) START_OF_GROUP = m"
          unfolding tk [OF True]
          by (simp add: count_list_replicate_same count_list_replicate_other NUL_def
                START_OF_GROUP_def START_OF_FRAME_def)
        then show ?thesis
          using False by arith
      next
        case False
        then show ?thesis by simp
      qed
      have "decode_frame sz frame data_reset = Inr (False, data_reset)"
        using le len a b by (intro decode_frame_cut) simp_all
      then show ?thesis
        using False le by simp
    qed
  qed
  then show ?thesis
    unfolding dec m_def .
qed

lemma end_markers_only:
  assumes "k \<le> 199" and "FRAME_SIZE sz = 200" and "max 1 (GROUP_COUNT sz) < k"
  shows "decode sz rxBytes (START_OF_FRAME # replicate k END_OF_GROUP @ [END_OF_FRAME])
           = Inl (Overflow ''endOfGroup'')"
proof -
  let ?body = "replicate k END_OF_GROUP"
  let ?init = "UINT_MAX # replicate (GROUP_COUNT sz - 1) 0"
  define frame where "frame = START_OF_FRAME # ?body @ replicate (199 - length ?body) NUL"
  have ff: "first_frame (START_OF_FRAME # ?body @ [END_OF_FRAME]) [] ?body []"
    using assms(1) by (simp add: first_frame_def UINT_MAX_def)
  have dec: "decode sz rxBytes (START_OF_FRAME # ?body @ [END_OF_FRAME])
          = decode_frame sz frame data_reset"
    unfolding frame_def using assms(1) by (intro first_frame_decode [OF ff]) simp
  have len: "length frame = 200"
    using assms(1) by (simp add: frame_def)
  have "Suc (GROUP_COUNT sz - 1) < k"
    using assms(3) by arith
  then have "find_groups 1 (replicate k END_OF_GROUP @ replicate (199 - k) NUL) (?init, ?init, 0, 0)
          = Inl (Overflow ''endOfGroup'')"
    by (intro find_groups_ends_overflow) simp_all
  then have "find_groups 0 (take (FRAME_SIZE sz) frame) (?init, ?init, 0, 0)
          = Inl (Overflow ''endOfGroup'')"
    using len unfolding assms(2) by (simp add: frame_def)
  then show ?thesis
    unfolding dec using len assms(2) by (simp add: decode_frame_def)
qed

text \<open>
  Claim C5 does not hold of the code. A frame with more group markers of one
  kind than the index arrays have cells is written past \<^verbatim>\<open>startOfGroup\<close> or
  \<^verbatim>\<open>endOfGroup\<close> before the two checks are reached: \<open>decode\<close> does not return
  failure. For a frame of 199 start-of-group markers and no end-of-group
  marker, whatever the sizes of \<^verbatim>\<open>linky.h\<close> are, the array is overrun as soon as
  the loop over the frame meets more markers than \<^verbatim>\<open>GROUP_COUNT\<close>; with fifty
  cells, 51 markers of either kind overrun their array.
\<close>
theorem group_index_overruns:
  "decode sz rxBytes ([CHR 0x02] @ replicate 199 (CHR 0x0A) @ [CHR 0x03])
     = (if 200 < FRAME_SIZE sz then Inl (Overread ''frame'')
        else if max 1 (GROUP_COUNT sz) < min 199 (FRAME_SIZE sz - 1)
             then Inl (Overflow ''startOfGroup'')
        else Inr (False, data_reset))
   \<and> decode example_sizes 53 ([CHR 0x02] @ replicate 51 (CHR 0x0A) @ [CHR 0x03])
     = Inl (Overflow ''startOfGroup'')
   \<and> decode example_sizes 53 ([CHR 0x02] @ replicate 51 (CHR 0x0D) @ [CHR 0x03])
     = Inl (Overflow ''endOfGroup'')"
proof -
  have "decode sz rxBytes (START_OF_FRAME # replicate 199 START_OF_GROUP @ [END_OF_FRAME])
     = (if 200 < FRAME_SIZE sz then Inl (Overread ''frame'')
        else if max 1 (GROUP_COUNT sz) < min 199 (FRAME_SIZE sz - 1)
             then Inl (Overflow ''startOfGroup'')
        else Inr (False, data_reset))"
    by (rule start_markers_only) simp
  moreover have "decode example_sizes 53
        (START_OF_FRAME # replicate 51 START_OF_GROUP @ [END_OF_FRAME])
     = Inl (Overflow ''startOfGroup'')"
    by (subst start_markers_only) (simp_all add: example_sizes_def)
  moreover have "decode example_sizes 53
        (START_OF_FRAME # replicate 51 END_OF_GROUP @ [END_OF_FRAME])
     = Inl (Overflow ''endOfGroup'')"
    by (rule end_markers_only) (simp_all add: example_sizes_def)
  ultimately show ?thesis
    by (simp add: START_OF_FRAME_def END_OF_FRAME_def START_OF_GROUP_def END_OF_GROUP_def)
qed

section \<open>The fields of a group\<close>

lemma plainD:
  assumes "plain s"
  shows "START_OF_FRAME \<notin> set s" "END_OF_FRAME \<notin> set s" "START_OF_GROUP \<notin> set s"
    "END_OF_GROUP \<notin> set s" "GROUP_SEPARATOR \<notin> set s" "NUL \<notin> set s"
  using assms by (auto simp: plain_def marker_def list_all_iff)

lemma find_separators_append:
  "GROUP_SEPARATOR \<notin> set xs \<Longrightarrow>
     find_separators j (xs @ ys) idx s = find_separators (j + length xs) ys idx s"
  by (induction xs arbitrary: j) auto

lemma find_separators_group:
  assumes "GROUP_SEPARATOR \<notin> set l" "GROUP_SEPARATOR \<notin> set v" "c \<noteq> GROUP_SEPARATOR"
    and "2 \<le> length idx"
  shows "find_separators st (START_OF_GROUP # l @ GROUP_SEPARATOR # v @ [GROUP_SEPARATOR, c]) idx 0
           = Inr (idx[0 := st + 1 + length l, 1 := st + 2 + length l + length v])"
proof -
  have idx: "idx \<noteq> []" "Suc 0 < length idx"
    using assms(4) by auto
  have "find_separators st (START_OF_GROUP # l @ GROUP_SEPARATOR # v @ [GROUP_SEPARATOR, c]) idx 0
          = find_separators (Suc st) (l @ GROUP_SEPARATOR # v @ [GROUP_SEPARATOR, c]) idx 0"
    by simp
  also have "\<dots> = find_separators (Suc st + length l) (GROUP_SEPARATOR # v @ [GROUP_SEPARATOR, c]) idx 0"
    by (rule find_separators_append [OF assms(1)])
  also have "\<dots> = find_separators (Suc (Suc st + length l)) (v @ [GROUP_SEPARATOR, c])
                      (idx[0 := Suc st + length l]) 1"
    using idx by simp
  also have "\<dots> = find_separators (Suc (Suc st + length l) + length v) [GROUP_SEPARATOR, c]
                      (idx[0 := Suc st + length l]) 1"
    by (rule find_separators_append [OF assms(2)])
  also have "\<dots> = Inr (idx[0 := Suc st + length l, 1 := Suc (Suc st + length l) + length v])"
    using assms(3) idx by simp
  finally show ?thesis
    by (simp add: add.commute add.left_commute)
qed

lemma c_str_plain: "NUL \<notin> set s \<Longrightarrow> c_str (s @ replicate k NUL) = s"
  by (induction s) (auto simp: c_str_def)

lemma c_str_id: "NUL \<notin> set s \<Longrightarrow> c_str s = s"
  using c_str_plain [of s 0] by simp

lemma checksum_padded:
  "NUL \<notin> set l \<Longrightarrow> NUL \<notin> set v \<Longrightarrow>
     checksum (l @ replicate j NUL) (v @ replicate k NUL) = checksum l v"
  by (simp add: checksum_def c_str_plain c_str_id)

lemma usub_index: "b \<le> a \<Longrightarrow> a \<le> 200 \<Longrightarrow> usub a b = a - b"
  by (rule usub_minus) (simp_all add: UINT_MAX_def)

lemma sub_list:
  "length xs = off \<Longrightarrow> length ys = n \<Longrightarrow> take n (drop off (xs @ ys @ zs)) = ys"
  by simp

lemma decode_group_wire:
  assumes frame: "frame = A @ tic_group l v c @ B" and len: "length frame = 200"
    and wf: "well_formed (l, v, c)" and n: "1 \<le> n"
  shows "decode_group sz frame (length A) (length A + length l + length v + 4) n data
           = (if checksum l v \<noteq> c then Inr data else dispatch sz l v data)"
proof -
  let ?st = "length A" and ?en = "length A + length l + length v + 4"
  let ?s0 = "length A + 1 + length l" and ?s1 = "length A + 2 + length l + length v"
  have pl: "plain l" "plain v" and ll: "length l \<le> 9" and lv: "length v \<le> 19"
    and c: "c \<noteq> GROUP_SEPARATOR"
    using wf by (auto simp: well_formed_def marker_def)
  have total: "length A + length l + length v + 5 + length B = 200"
    using len by (simp add: frame tic_group_def)
  define X where "X = START_OF_GROUP # l @ GROUP_SEPARATOR # v @ [GROUP_SEPARATOR, c]"
  have "frame = A @ X @ (END_OF_GROUP # B)"
    by (simp add: frame tic_group_def X_def)
  then have "take (length X) (drop ?st frame) = X"
    by (simp only: sub_list [OF refl refl])
  moreover have "length X = ?en - ?st"
    by (simp add: X_def)
  ultimately have slice: "take (?en - ?st) (drop ?st frame)
                 = START_OF_GROUP # l @ GROUP_SEPARATOR # v @ [GROUP_SEPARATOR, c]"
    by (simp only: X_def)
  have seps: "find_separators ?st (take (?en - ?st) (drop ?st frame)) (replicate (n + 1) 0) 0
                = Inr ((replicate (n + 1) 0)[0 := ?s0, 1 := ?s1])"
    unfolding slice using plainD(5) [OF pl(1)] plainD(5) [OF pl(2)] c n
    by (intro find_separators_group) simp_all
  have i0: "(replicate (n + 1) 0)[0 := ?s0, 1 := ?s1] ! 0 = ?s0"
    and i1: "(replicate (n + 1) 0)[0 := ?s0, 1 := ?s1] ! 1 = ?s1"
    using n by simp_all
  have n0: "usub (usub ?s0 ?st) 1 = length l"
    using total by (simp add: usub_index)
  have n1: "usub (usub ?s1 ?s0) 1 = length v"
    using total by (simp add: usub_index)
  have n2: "usub (usub ?en ?s1) 1 = 1"
    using total by (simp add: usub_index)
  define P0 where "P0 = A @ [START_OF_GROUP]"
  define P1 where "P1 = A @ START_OF_GROUP # l @ [GROUP_SEPARATOR]"
  define P2 where "P2 = A @ START_OF_GROUP # l @ GROUP_SEPARATOR # v @ [GROUP_SEPARATOR]"
  have lens: "length P0 = ?st + 1" "length P1 = ?s0 + 1" "length P2 = ?s1 + 1"
    by (simp_all add: P0_def P1_def P2_def)
  have "frame = P0 @ l @ (GROUP_SEPARATOR # v @ [GROUP_SEPARATOR, c, END_OF_GROUP] @ B)"
    by (simp add: frame tic_group_def P0_def)
  then have "take (length l) (drop (length P0) frame) = l"
    by (simp only: sub_list [OF refl refl])
  then have m0: "memcpy ''label'' 10 frame (?st + 1) (length l)
              = Inr (l @ replicate (10 - length l) NUL)"
    using ll total len unfolding lens by (simp add: memcpy_def)
  have "frame = P1 @ v @ ([GROUP_SEPARATOR, c, END_OF_GROUP] @ B)"
    by (simp add: frame tic_group_def P1_def)
  then have "take (length v) (drop (length P1) frame) = v"
    by (simp only: sub_list [OF refl refl])
  then have m1: "memcpy ''value'' 20 frame (?s0 + 1) (length v)
              = Inr (v @ replicate (20 - length v) NUL)"
    using lv total len unfolding lens by (simp add: memcpy_def)
  have "frame = P2 @ [c] @ (END_OF_GROUP # B)"
    by (simp add: frame tic_group_def P2_def)
  then have "take (length [c]) (drop (length P2) frame) = [c]"
    by (simp only: sub_list [OF refl refl])
  then have m2: "memcpy ''checksum'' 5 frame (?s1 + 1) 1 = Inr (c # replicate 4 NUL)"
    using total len unfolding lens by (simp add: memcpy_def)
  have t0: "NUL \<in> set (l @ replicate (10 - length l) NUL)"
    and t1: "NUL \<in> set (v @ replicate (20 - length v) NUL)"
    using ll lv by simp_all
  show ?thesis
    unfolding decode_group_def seps and_then.simps i0 i1 n0 n1 n2 m0 m1 m2
    using t0 t1 plainD(6) [OF pl(1)] plainD(6) [OF pl(2)]
    by (simp add: checksum_padded c_str_plain)
qed

lemma length_group [simp]: "length (tic_group l v c) = length l + length v + 5"
  by (simp add: tic_group_def)

lemma groups_simps [simp]:
  "groups [] = []" "groups ((l, v, c) # fs) = tic_group l v c @ groups fs"
  "groups (xs @ ys) = groups xs @ groups ys"
  by (simp_all add: groups_def)

lemma positions_skip:
  "c \<notin> set xs \<Longrightarrow> positions c i (xs @ ys) = positions c (i + length xs) ys"
  by (simp add: positions_append positions_none)

lemma positions_group_start:
  assumes "well_formed (l, v, c)"
  shows "positions START_OF_GROUP i (tic_group l v c @ rest)
           = i # positions START_OF_GROUP (i + (length l + length v + 5)) rest"
proof -
  define X where "X = l @ GROUP_SEPARATOR # v @ [GROUP_SEPARATOR, c, END_OF_GROUP]"
  have "START_OF_GROUP \<notin> set X"
    using assms plainD(3) [of l] plainD(3) [of v]
    by (auto simp: well_formed_def marker_def X_def)
  then have "positions START_OF_GROUP (Suc i) (X @ rest)
               = positions START_OF_GROUP (Suc i + length X) rest"
    by (rule positions_skip)
  moreover have "Suc i + length X = i + (length l + length v + 5)"
    by (simp add: X_def)
  moreover have "tic_group l v c @ rest = START_OF_GROUP # X @ rest"
    by (simp add: tic_group_def X_def)
  ultimately show ?thesis
    by (simp add: ac_simps)
qed

lemma positions_group_end:
  assumes "well_formed (l, v, c)"
  shows "positions END_OF_GROUP i (tic_group l v c @ rest)
           = (i + (length l + length v + 4))
               # positions END_OF_GROUP (i + (length l + length v + 5)) rest"
proof -
  define X where "X = START_OF_GROUP # l @ GROUP_SEPARATOR # v @ [GROUP_SEPARATOR, c]"
  have "END_OF_GROUP \<notin> set X"
    using assms plainD(4) [of l] plainD(4) [of v]
    by (auto simp: well_formed_def marker_def X_def)
  then have "positions END_OF_GROUP i (X @ END_OF_GROUP # rest)
               = positions END_OF_GROUP (i + length X) (END_OF_GROUP # rest)"
    by (rule positions_skip)
  moreover have "i + length X = i + (length l + length v + 4)"
    "Suc (i + length X) = i + (length l + length v + 5)"
    by (simp_all add: X_def)
  moreover have "tic_group l v c @ rest = X @ END_OF_GROUP # rest"
    by (simp add: tic_group_def X_def)
  ultimately show ?thesis
    by (simp add: ac_simps)
qed

lemma positions_groups_start:
  assumes "\<forall>f\<in>set fs. well_formed f" and "START_OF_GROUP \<notin> set pad"
  shows "positions START_OF_GROUP i (groups fs @ pad)
           = map (\<lambda>k. i + length (groups (take k fs))) [0..<length fs]"
  using assms(1)
proof (induction fs arbitrary: i)
  case Nil
  then show ?case
    using assms(2) by (simp add: positions_none)
next
  case (Cons f fs)
  obtain l v c where f: "f = (l, v, c)"
    by (cases f)
  have "positions START_OF_GROUP i (groups (f # fs) @ pad)
          = i # positions START_OF_GROUP (i + (length l + length v + 5)) (groups fs @ pad)"
    using Cons.prems by (simp add: f positions_group_start)
  also have "positions START_OF_GROUP (i + (length l + length v + 5)) (groups fs @ pad)
          = map (\<lambda>k. i + (length l + length v + 5) + length (groups (take k fs))) [0..<length fs]"
    using Cons.prems by (intro Cons.IH) simp
  finally show ?case
    by (simp add: f upt_rec [of 0 "Suc (length fs)"] map_Suc_upt [symmetric] del: upt_Suc)
qed

lemma positions_groups_end:
  assumes "\<forall>f\<in>set fs. well_formed f" and "END_OF_GROUP \<notin> set pad"
  shows "positions END_OF_GROUP i (groups fs @ pad)
           = map (\<lambda>k. i + length (groups (take (Suc k) fs)) - 1) [0..<length fs]"
  using assms(1)
proof (induction fs arbitrary: i)
  case Nil
  then show ?case
    using assms(2) by (simp add: positions_none)
next
  case (Cons f fs)
  obtain l v c where f: "f = (l, v, c)"
    by (cases f)
  have "positions END_OF_GROUP i (groups (f # fs) @ pad)
          = (i + (length l + length v + 4))
              # positions END_OF_GROUP (i + (length l + length v + 5)) (groups fs @ pad)"
    using Cons.prems by (simp add: f positions_group_end)
  also have "positions END_OF_GROUP (i + (length l + length v + 5)) (groups fs @ pad)
          = map (\<lambda>k. i + (length l + length v + 5) + length (groups (take (Suc k) fs)) - 1)
              [0..<length fs]"
    using Cons.prems by (intro Cons.IH) simp
  finally show ?case
    by (simp add: f upt_rec [of 0 "Suc (length fs)"] map_Suc_upt [symmetric] del: upt_Suc)
qed

lemma for_each_group_fields:
  assumes frame: "frame = START_OF_FRAME # groups fs @ pad" and len: "length frame = 200"
    and wf: "\<forall>f\<in>set fs. well_formed f"
    and sg: "\<forall>k<length fs. sg ! k = 1 + length (groups (take k fs))"
    and eg: "\<forall>k<length fs. eg ! k = length (groups (take (Suc k) fs))"
  shows "k \<le> length fs \<Longrightarrow>
    for_each_group sz frame sg eg (length fs) [k..<length fs] data
      = fields_result sz (drop k fs) data"
proof (induction "length fs - k" arbitrary: k data)
  case 0
  then show ?case by simp
next
  case (Suc d)
  then have k: "k < length fs"
    by simp
  obtain l v c where f: "fs ! k = (l, v, c)"
    by (cases "fs ! k")
  have wfk: "well_formed (l, v, c)"
    using wf k f nth_mem by fastforce
  have split: "fs = take k fs @ (l, v, c) # drop (Suc k) fs"
    using id_take_nth_drop [OF k] f by simp
  define A where "A = START_OF_FRAME # groups (take k fs)"
  define B where "B = groups (drop (Suc k) fs) @ pad"
  have "groups fs = groups (take k fs) @ tic_group l v c @ groups (drop (Suc k) fs)"
    by (subst split) (simp only: groups_simps)
  then have fr: "frame = A @ tic_group l v c @ B"
    by (simp add: frame A_def B_def)
  have "take (Suc k) fs = take k fs @ [(l, v, c)]"
    using k f by (simp add: take_Suc_conv_app_nth)
  then have ek: "eg ! k = length A + length l + length v + 4"
    using eg k by (simp add: A_def)
  have sk: "sg ! k = length A"
    using sg k by (simp add: A_def)
  have step: "decode_group sz frame (sg ! k) (eg ! k) (length fs) data
                = (if checksum l v \<noteq> c then Inr data else dispatch sz l v data)"
    unfolding sk ek using k by (intro decode_group_wire [OF fr len wfk]) simp
  have IH: "for_each_group sz frame sg eg (length fs) [Suc k..<length fs] data'
              = fields_result sz (drop (Suc k) fs) data'" for data'
    using Suc.hyps(2) k by (intro Suc.hyps(1)) simp_all
  then have IH: "for_each_group sz frame sg eg (length fs) [Suc k..<length fs]
              = fields_result sz (drop (Suc k) fs)"
    by (intro ext)
  have "drop k fs = (l, v, c) # drop (Suc k) fs"
    using k f by (simp add: Cons_nth_drop_Suc [symmetric])
  then show ?case
    using k by (simp add: upt_conv_Cons step IH cong: if_cong)
qed


lemma decode_frame_fields:
  assumes wf: "\<forall>f\<in>set fs. well_formed f" and ne: "fs \<noteq> []"
    and cnt: "length fs \<le> GROUP_COUNT sz"
    and fit: "1 + length (groups fs) \<le> FRAME_SIZE sz" and cap: "FRAME_SIZE sz \<le> 200"
  shows "decode_frame sz (START_OF_FRAME # groups fs @ replicate (199 - length (groups fs)) NUL) data
           = and_then (fields_result sz fs data) (\<lambda>data'. Inr (True, data'))"
proof -
  let ?N = "length fs"
  let ?frame = "START_OF_FRAME # groups fs @ replicate (199 - length (groups fs)) NUL"
  let ?pad = "replicate (FRAME_SIZE sz - length (START_OF_FRAME # groups fs)) NUL"
  let ?cs = "take (FRAME_SIZE sz) ?frame"
  let ?init = "UINT_MAX # replicate (GROUP_COUNT sz - 1) 0"
  let ?P = "map (\<lambda>k. 1 + length (groups (take k fs))) [0..<?N]"
  let ?Q = "map (\<lambda>k. 1 + length (groups (take (Suc k) fs)) - 1) [0..<?N]"
  have len: "length ?frame = 200"
    using fit cap by simp
  have "take (FRAME_SIZE sz) ((START_OF_FRAME # groups fs) @ replicate (199 - length (groups fs)) NUL)
          = (START_OF_FRAME # groups fs) @ ?pad"
    using fit cap by (intro take_padded) simp_all
  then have cs: "?cs = START_OF_FRAME # groups fs @ ?pad"
    by simp
  have P: "positions START_OF_GROUP 0 ?cs = ?P"
    using positions_groups_start [OF wf, of ?pad 1] by (simp add: cs)
  have Q: "positions END_OF_GROUP 0 ?cs = ?Q"
    using positions_groups_end [OF wf, of ?pad 1] by (simp add: cs)
  have cP: "count_list ?cs START_OF_GROUP = ?N"
    using length_positions [of START_OF_GROUP 0 ?cs] unfolding P by simp
  have cQ: "count_list ?cs END_OF_GROUP = ?N"
    using length_positions [of END_OF_GROUP 0 ?cs] unfolding Q by simp
  have fg: "find_groups 0 ?cs (?init, ?init, 0, 0)
              = Inr (?P @ drop ?N ?init, ?Q @ drop ?N ?init, ?N, ?N)"
    using find_groups_positions [of 0 ?cs ?init 0 ?init 0] cnt
    unfolding cP cQ P Q by simp
  have Pk: "(?P @ drop ?N ?init) ! k = 1 + length (groups (take k fs))" if "k < ?N" for k
    using that by (simp add: nth_append)
  have Qk: "(?Q @ drop ?N ?init) ! k = length (groups (take (Suc k) fs))" if "k < ?N" for k
    using that by (simp add: nth_append)
  have N: "0 < ?N"
    using ne by simp
  have "length (groups (take (Suc 0) fs)) \<le> length (groups fs)"
    using groups_simps(3) [of "take (Suc 0) fs" "drop (Suc 0) fs"] by simp
  then have ok: "(?P @ drop ?N ?init) ! 0 \<noteq> UINT_MAX" "(?Q @ drop ?N ?init) ! 0 \<noteq> UINT_MAX"
    using Pk [OF N] Qk [OF N] fit cap by (simp_all add: UINT_MAX_def)
  have loop: "for_each_group sz ?frame (?P @ drop ?N ?init) (?Q @ drop ?N ?init) ?N [0..<?N] data
                = fields_result sz fs data"
    using for_each_group_fields [OF refl len wf, of "?P @ drop ?N ?init" "?Q @ drop ?N ?init" 0 sz data]
      Pk Qk by simp
  show ?thesis
    unfolding decode_frame_def fg and_then.simps prod.case loop
    using ok len cap by simp
qed

section \<open>The dispatcher\<close>

lemma dispatch_label:
  "dispatch sz ''ADCO'' v d = Inr (d\<lparr>ADCO := strtoul v\<rparr>)"
  "dispatch sz ''ISOUSC'' v d = Inr (d\<lparr>ISOUSC := strtoul v\<rparr>)"
  "dispatch sz ''BASE'' v d = Inr (d\<lparr>BASE := strtoul v\<rparr>)"
  "dispatch sz ''HCHC'' v d = Inr (d\<lparr>HCHC := strtoul v\<rparr>)"
  "dispatch sz ''HCHP'' v d = Inr (d\<lparr>HCHP := strtoul v\<rparr>)"
  "dispatch sz ''IINST'' v d = Inr (d\<lparr>IINST := strtoul v\<rparr>)"
  "dispatch sz ''IMAX'' v d = Inr (d\<lparr>IMAX := strtoul v\<rparr>)"
  "dispatch sz ''PAPP'' v d = Inr (d\<lparr>PAPP := strtoul v\<rparr>)"
  "length v < OPTARIF_SIZE sz \<Longrightarrow> dispatch sz ''OPTARIF'' v d = Inr (d\<lparr>OPTARIF := v\<rparr>)"
  "length v < PTEC_SIZE sz \<Longrightarrow> dispatch sz ''PTEC'' v d = Inr (d\<lparr>PTEC := v\<rparr>)"
  "length v < HHPHC_SIZE sz \<Longrightarrow> dispatch sz ''HHPHC'' v d = Inr (d\<lparr>HHPHC := v\<rparr>)"
  "length v < MOTDETAT_SIZE sz \<Longrightarrow> dispatch sz ''MOTDETAT'' v d = Inr (d\<lparr>MOTDETAT := v\<rparr>)"
  by (simp_all add: dispatch_def strcpy_def)

lemma numeric_slot_update:
  "numeric_slot l (d\<lparr>ADCO := x\<rparr>) = (if l = ''ADCO'' then Some x else numeric_slot l d)"
  "numeric_slot l (d\<lparr>ISOUSC := x\<rparr>) = (if l = ''ISOUSC'' then Some x else numeric_slot l d)"
  "numeric_slot l (d\<lparr>BASE := x\<rparr>) = (if l = ''BASE'' then Some x else numeric_slot l d)"
  "numeric_slot l (d\<lparr>HCHC := x\<rparr>) = (if l = ''HCHC'' then Some x else numeric_slot l d)"
  "numeric_slot l (d\<lparr>HCHP := x\<rparr>) = (if l = ''HCHP'' then Some x else numeric_slot l d)"
  "numeric_slot l (d\<lparr>IINST := x\<rparr>) = (if l = ''IINST'' then Some x else numeric_slot l d)"
  "numeric_slot l (d\<lparr>IMAX := x\<rparr>) = (if l = ''IMAX'' then Some x else numeric_slot l d)"
  "numeric_slot l (d\<lparr>PAPP := x\<rparr>) = (if l = ''PAPP'' then Some x else numeric_slot l d)"
  "numeric_slot l (d\<lparr>OPTARIF := s\<rparr>) = numeric_slot l d"
  "numeric_slot l (d\<lparr>PTEC := s\<rparr>) = numeric_slot l d"
  "numeric_slot l (d\<lparr>HHPHC := s\<rparr>) = numeric_slot l d"
  "numeric_slot l (d\<lparr>MOTDETAT := s\<rparr>) = numeric_slot l d"
  by (simp_all add: numeric_slot_def)

lemma text_slot_update:
  "text_slot l (d\<lparr>ADCO := x\<rparr>) = text_slot l d"
  "text_slot l (d\<lparr>ISOUSC := x\<rparr>) = text_slot l d"
  "text_slot l (d\<lparr>BASE := x\<rparr>) = text_slot l d"
  "text_slot l (d\<lparr>HCHC := x\<rparr>) = text_slot l d"
  "text_slot l (d\<lparr>HCHP := x\<rparr>) = text_slot l d"
  "text_slot l (d\<lparr>IINST := x\<rparr>) = text_slot l d"
  "text_slot l (d\<lparr>IMAX := x\<rparr>) = text_slot l d"
  "text_slot l (d\<lparr>PAPP := x\<rparr>) = text_slot l d"
  "text_slot l (d\<lparr>OPTARIF := s\<rparr>) = (if l = ''OPTARIF'' then Some s else text_slot l d)"
  "text_slot l (d\<lparr>PTEC := s\<rparr>) = (if l = ''PTEC'' then Some s else text_slot l d)"
  "text_slot l (d\<lparr>HHPHC := s\<rparr>) = (if l = ''HHPHC'' then Some s else text_slot l d)"
  "text_slot l (d\<lparr>MOTDETAT := s\<rparr>) = (if l = ''MOTDETAT'' then Some s else text_slot l d)"
  by (simp_all add: text_slot_def)

lemma labels_disjoint: "l \<in> set numeric_labels \<Longrightarrow> l \<notin> set text_labels"
  by (auto simp: numeric_labels_def text_labels_def)

lemma dispatch_numeric:
  assumes "l \<in> set numeric_labels"
  shows "\<exists>d'. dispatch sz l v d = Inr d' \<and> slot_holds l v d'
           \<and> (\<forall>l'. l' \<noteq> l \<longrightarrow> slot_same l' d d')"
proof -
  have "l = ''ADCO'' \<or> l = ''ISOUSC'' \<or> l = ''BASE'' \<or> l = ''HCHC'' \<or> l = ''HCHP''
    \<or> l = ''IINST'' \<or> l = ''IMAX'' \<or> l = ''PAPP''"
    using assms by (simp add: numeric_labels_def)
  then show ?thesis
    by (elim disjE)
      (simp_all add: dispatch_label slot_holds_def slot_same_def numeric_slot_update
         text_slot_update numeric_labels_def text_labels_def)
qed

lemma dispatch_text:
  assumes "l \<in> set text_labels" and "length v < text_size sz l"
  shows "\<exists>d'. dispatch sz l v d = Inr d' \<and> slot_holds l v d'
           \<and> (\<forall>l'. l' \<noteq> l \<longrightarrow> slot_same l' d d')"
proof -
  have "l = ''OPTARIF'' \<or> l = ''PTEC'' \<or> l = ''HHPHC'' \<or> l = ''MOTDETAT''"
    using assms(1) by (simp add: text_labels_def)
  then show ?thesis
    using assms(2)
    by (elim disjE)
      (simp_all add: dispatch_label slot_holds_def slot_same_def numeric_slot_update
         text_slot_update numeric_labels_def text_labels_def text_size_def)
qed

lemma dispatch_fits:
  assumes "field_fits sz l v"
  shows "\<exists>d'. dispatch sz l v d = Inr d' \<and> slot_holds l v d'
           \<and> (\<forall>l'. l' \<noteq> l \<longrightarrow> slot_same l' d d')"
proof -
  have "l \<in> set numeric_labels \<or> l \<in> set text_labels \<and> length v < text_size sz l"
    using assms unfolding field_fits_def by (elim conjE)
  then show ?thesis
    using dispatch_numeric [of l sz v d] dispatch_text [of l v sz d] by (elim disjE conjE)
qed

lemma dispatch_unknown:
  "l \<notin> set numeric_labels \<Longrightarrow> l \<notin> set text_labels \<Longrightarrow> dispatch sz l v d = Inr d"
  by (simp add: dispatch_def numeric_labels_def text_labels_def)

lemma slot_same_refl [simp]: "slot_same l d d"
  by (simp add: slot_same_def)

lemma slot_same_trans: "slot_same l d d1 \<Longrightarrow> slot_same l d1 d' \<Longrightarrow> slot_same l d d'"
  by (simp add: slot_same_def)

lemma slot_holds_same: "slot_holds l v d1 \<Longrightarrow> slot_same l d1 d' \<Longrightarrow> slot_holds l v d'"
  by (simp add: slot_same_def slot_holds_def)

lemma field_step:
  assumes "c = checksum l v \<longrightarrow> field_fits sz l v"
  shows "\<exists>d1. (if checksum l v \<noteq> c then Inr d else dispatch sz l v d) = Inr d1
           \<and> (if c = checksum l v then slot_holds l v d1 else slot_same l d d1)
           \<and> (\<forall>l'. l' \<noteq> l \<longrightarrow> slot_same l' d d1)"
proof (cases "c = checksum l v")
  case True
  then show ?thesis
    using assms dispatch_fits [of sz l v d] by simp
next
  case False
  then have "checksum l v \<noteq> c"
    by blast
  with False show ?thesis
    by simp
qed

lemma fields_result_slots:
  assumes "distinct (map fst fs)"
    and "\<forall>f\<in>set fs. case f of (l, v, c) \<Rightarrow> c = checksum l v \<longrightarrow> field_fits sz l v"
  shows "\<exists>d'. fields_result sz fs d = Inr d'
           \<and> (\<forall>l. l \<notin> fst ` set fs \<longrightarrow> slot_same l d d')
           \<and> (\<forall>f\<in>set fs. case f of (l, v, c) \<Rightarrow>
                 if c = checksum l v then slot_holds l v d' else slot_same l d d')"
  using assms
proof (induction fs arbitrary: d)
  case Nil
  then show ?case by simp
next
  case (Cons f fs)
  obtain l v c where f: "f = (l, v, c)"
    by (cases f)
  have fit: "c = checksum l v \<longrightarrow> field_fits sz l v"
    using Cons.prems(2) f by simp
  obtain d1 where d1: "(if checksum l v \<noteq> c then Inr d else dispatch sz l v d) = Inr d1"
    and own: "if c = checksum l v then slot_holds l v d1 else slot_same l d d1"
    and others: "\<forall>l'. l' \<noteq> l \<longrightarrow> slot_same l' d d1"
    using field_step [OF fit] by blast
  have fresh: "l \<notin> fst ` set fs" and dist: "distinct (map fst fs)"
    using Cons.prems(1) f by simp_all
  obtain d' where d': "fields_result sz fs d1 = Inr d'"
    and out: "\<forall>l'. l' \<notin> fst ` set fs \<longrightarrow> slot_same l' d1 d'"
    and ins: "\<forall>g\<in>set fs. case g of (l', v', c') \<Rightarrow>
                 if c' = checksum l' v' then slot_holds l' v' d' else slot_same l' d1 d'"
    using Cons.IH [OF dist, of d1] Cons.prems(2) by auto
  have res: "fields_result sz (f # fs) d = Inr d'"
    using d1 d' by (simp add: f)
  have a: "\<forall>l'. l' \<notin> fst ` set (f # fs) \<longrightarrow> slot_same l' d d'"
    using others out by (auto simp: f intro: slot_same_trans)
  have b: "if c = checksum l v then slot_holds l v d' else slot_same l d d'"
    using own out fresh by (auto intro: slot_holds_same slot_same_trans)
  have c: "case g of (l', v', c') \<Rightarrow>
             if c' = checksum l' v' then slot_holds l' v' d' else slot_same l' d d'"
    if "g \<in> set fs" for g
  proof -
    obtain l' v' c' where g: "g = (l', v', c')"
      by (cases g)
    have "l' \<in> fst ` set fs"
      using that g by force
    then have "l' \<noteq> l"
      using fresh by blast
    then have s1: "slot_same l' d d1"
      using others by blast
    have "if c' = checksum l' v' then slot_holds l' v' d' else slot_same l' d1 d'"
      using ins that g by fastforce
    then show ?thesis
      using s1 by (auto simp: g intro: slot_same_trans)
  qed
  show ?case
    using res a b c by (auto simp: f)
qed

subsection \<open>\<^verbatim>\<open>strtoul\<close>\<close>

lemma decimal_from_mono: "a \<le> decimal_from a v"
proof (induction v arbitrary: a)
  case Nil
  then show ?case by simp
next
  case (Cons c cs)
  have "a \<le> 10 * a + digit_value c"
    by simp
  also have "\<dots> \<le> decimal_from (10 * a + digit_value c) cs"
    by (rule Cons.IH)
  finally show ?case
    by simp
qed

lemma strtoul_digits_over:
  "list_all isdigit ds \<Longrightarrow> strtoul_digits acc True ds = (acc, True)"
  by (induction ds) simp_all

lemma strtoul_digits_in_range:
  assumes "list_all isdigit ds" and "decimal_from acc ds \<le> ULONG_MAX"
  shows "strtoul_digits acc False ds = (decimal_from acc ds, False)"
  using assms
proof (induction ds arbitrary: acc)
  case Nil
  then show ?case by simp
next
  case (Cons c cs)
  have "10 * acc + digit_value c \<le> decimal_from (10 * acc + digit_value c) cs"
    by (rule decimal_from_mono)
  then have "\<not> ULONG_MAX < acc * 10 + digit_value c"
    using Cons.prems(2) by (simp add: mult.commute)
  then show ?case
    using Cons.prems Cons.IH [of "acc * 10 + digit_value c"] by (simp add: mult.commute)
qed

lemma strtoul_digits_out_of_range:
  assumes "list_all isdigit ds" and "ULONG_MAX < decimal_from acc ds" and "acc \<le> ULONG_MAX"
  shows "snd (strtoul_digits acc False ds) = True"
  using assms
proof (induction ds arbitrary: acc)
  case Nil
  then show ?case by simp
next
  case (Cons c cs)
  then have c: "isdigit c" and cs: "list_all isdigit cs"
    by simp_all
  show ?case
  proof (cases "ULONG_MAX < acc * 10 + digit_value c")
    case True
    then show ?thesis
      using c cs by (simp add: strtoul_digits_over)
  next
    case False
    then show ?thesis
      using c Cons.prems(2) Cons.IH [OF cs, of "acc * 10 + digit_value c"]
      by (simp add: mult.commute)
  qed
qed

lemma strtoul_digits_stop:
  assumes "rest = [] \<or> \<not> isdigit (hd rest)" and "list_all isdigit ds"
  shows "strtoul_digits acc over (ds @ rest) = strtoul_digits acc over ds"
  using assms(2)
proof (induction ds arbitrary: acc over)
  case Nil
  then show ?case
    using assms(1) by (cases rest) simp_all
next
  case (Cons c cs)
  then show ?case by simp
qed

lemma isdigit_not_isspace: "isdigit c \<Longrightarrow> \<not> isspace c"
  by (auto simp: isdigit_def isspace_def)

lemma isdigit_not_sign: "isdigit c \<Longrightarrow> c \<noteq> CHR ''-'' \<and> c \<noteq> CHR ''+''"
  by (auto simp: isdigit_def)

lemma sign_not_isspace: "\<not> isspace CHR ''-''" "\<not> isspace CHR ''+''"
  by (simp_all add: isspace_def)

lemma dropWhile_isspace:
  "list_all isspace ws \<Longrightarrow> s = [] \<or> \<not> isspace (hd s) \<Longrightarrow> dropWhile isspace (ws @ s) = s"
  by (induction ws) (cases s; simp)+

lemma strtoul_eval:
  assumes "dropWhile isspace s = s1" and "neg = (s1 \<noteq> [] \<and> hd s1 = CHR ''-'')"
    and "s2 = (if s1 \<noteq> [] \<and> (hd s1 = CHR ''-'' \<or> hd s1 = CHR ''+'') then tl s1 else s1)"
  shows "strtoul s = (case strtoul_digits 0 False s2 of (acc, over) \<Rightarrow>
                        if over then ULONG_MAX else if neg then usub 0 acc else acc)"
  unfolding strtoul_def Let_def assms ..

lemma strtoul_parts:
  assumes ws: "list_all isspace ws"
    and sg: "sg = [] \<or> sg = ''+'' \<or> sg = ''-''"
    and ds: "list_all isdigit ds"
    and rest: "rest = [] \<or> \<not> isdigit (hd rest)"
    and bare: "sg = [] \<and> ds = [] \<longrightarrow>
                 rest = [] \<or> \<not> isspace (hd rest) \<and> hd rest \<noteq> CHR ''+'' \<and> hd rest \<noteq> CHR ''-''"
  shows "strtoul (ws @ sg @ ds @ rest) = converted (sg = ''-'') (decimal ds)"
proof -
  let ?s = "sg @ ds @ rest"
  have stop: "strtoul_digits 0 False (ds @ rest) = strtoul_digits 0 False ds"
    by (rule strtoul_digits_stop [OF rest ds])
  have val: "(case strtoul_digits 0 False (ds @ rest) of (acc, over) \<Rightarrow>
               if over then ULONG_MAX else if neg then usub 0 acc else acc)
             = converted neg (decimal ds)" for neg
  proof (cases "decimal ds \<le> ULONG_MAX")
    case True
    then show ?thesis
      using strtoul_digits_in_range [OF ds, of 0]
      by (simp add: stop decimal_def converted_def)
  next
    case False
    then have "snd (strtoul_digits 0 False ds) = True"
      using strtoul_digits_out_of_range [OF ds, of 0] by (simp add: decimal_def)
    then obtain a where "strtoul_digits 0 False ds = (a, True)"
      by (cases "strtoul_digits 0 False ds") simp
    then show ?thesis
      using False by (simp add: stop converted_def)
  qed
  have hd: "?s = [] \<or> \<not> isspace (hd ?s)"
  proof (cases "sg = []")
    case False
    then show ?thesis
      using sg sign_not_isspace by auto
  next
    case True
    show ?thesis
    proof (cases ds)
      case Nil
      then show ?thesis
        using True bare by auto
    next
      case (Cons c cs)
      then show ?thesis
        using True ds isdigit_not_isspace by simp
    qed
  qed
  have s1: "dropWhile isspace (ws @ ?s) = ?s"
    using dropWhile_isspace [OF ws hd] .
  consider (none) "sg = []" | (plus) "sg = ''+''" | (minus) "sg = ''-''"
    using sg by blast
  then show ?thesis
  proof cases
    case none
    have nosign: "ds @ rest = [] \<or> (hd (ds @ rest) \<noteq> CHR ''-'' \<and> hd (ds @ rest) \<noteq> CHR ''+'')"
    proof (cases ds)
      case Nil
      then show ?thesis
        using none bare by auto
    next
      case (Cons c cs)
      then show ?thesis
        using ds isdigit_not_sign [of c] by simp
    qed
    have "strtoul (ws @ ?s) = (case strtoul_digits 0 False (ds @ rest) of (acc, over) \<Rightarrow>
                        if over then ULONG_MAX else if False then usub 0 acc else acc)"
      using none nosign by (intro strtoul_eval [OF s1]) auto
    then show ?thesis
      using none by (simp only: val) simp
  next
    case plus
    have "strtoul (ws @ ?s) = (case strtoul_digits 0 False (ds @ rest) of (acc, over) \<Rightarrow>
                        if over then ULONG_MAX else if False then usub 0 acc else acc)"
      using plus by (intro strtoul_eval [OF s1]) simp_all
    then show ?thesis
      using plus by (simp only: val) simp
  next
    case minus
    have "strtoul (ws @ ?s) = (case strtoul_digits 0 False (ds @ rest) of (acc, over) \<Rightarrow>
                        if over then ULONG_MAX else if True then usub 0 acc else acc)"
      using minus by (intro strtoul_eval [OF s1]) simp_all
    then show ?thesis
      using minus by (simp only: val) simp
  qed
qed

lemma strtoul_decimal:
  assumes "list_all isdigit v"
  shows "strtoul v = min (decimal v) ULONG_MAX"
  using strtoul_parts [of "[]" "[]" v "[]"] assms
  by (simp add: converted_def min_def)

section \<open>The whole cycle\<close>

lemma known_label_plain:
  assumes "l \<in> set numeric_labels \<or> l \<in> set text_labels"
  shows "plain l \<and> length l \<le> 9"
proof -
  have "l = ''ADCO'' \<or> l = ''ISOUSC'' \<or> l = ''BASE'' \<or> l = ''HCHC'' \<or> l = ''HCHP''
    \<or> l = ''IINST'' \<or> l = ''IMAX'' \<or> l = ''PAPP''
    \<or> l = ''OPTARIF'' \<or> l = ''PTEC'' \<or> l = ''HHPHC'' \<or> l = ''MOTDETAT''"
    using assms by (simp add: numeric_labels_def text_labels_def)
  then show ?thesis
    by (elim disjE)
      (simp_all add: plain_def marker_def START_OF_FRAME_def END_OF_FRAME_def
         START_OF_GROUP_def END_OF_GROUP_def GROUP_SEPARATOR_def NUL_def)
qed

lemma field_fits_well_formed:
  assumes "field_fits sz l v" and "\<not> marker c"
  shows "well_formed (l, v, c)"
proof -
  have "l \<in> set numeric_labels \<or> l \<in> set text_labels"
    using assms(1) unfolding field_fits_def by (elim conjE disjE) simp_all
  then have "plain l \<and> length l \<le> 9"
    by (rule known_label_plain)
  then show ?thesis
    using assms by (simp add: well_formed_def field_fits_def)
qed

lemma checksum_ge: "32 \<le> (of_char (checksum l v) :: nat)"
  by (simp add: checksum_value)

lemma checksum_marker: "marker (checksum l v) \<longleftrightarrow> checksum l v = GROUP_SEPARATOR"
proof -
  have "checksum l v \<noteq> START_OF_FRAME" "checksum l v \<noteq> END_OF_FRAME"
    "checksum l v \<noteq> START_OF_GROUP" "checksum l v \<noteq> END_OF_GROUP"
    using checksum_ge [of l v]
    by (auto simp: START_OF_FRAME_def END_OF_FRAME_def START_OF_GROUP_def END_OF_GROUP_def)
  then show ?thesis
    by (simp add: marker_def)
qed

lemma plain_groups:
  assumes "\<forall>f\<in>set fs. well_formed f"
  shows "START_OF_FRAME \<notin> set (groups fs) \<and> END_OF_FRAME \<notin> set (groups fs)"
  using assms
proof (induction fs)
  case Nil
  then show ?case by simp
next
  case (Cons f fs)
  obtain l v c where f: "f = (l, v, c)"
    by (cases f)
  have "well_formed (l, v, c)"
    using Cons.prems f by simp
  then have "START_OF_FRAME \<notin> set (tic_group l v c) \<and> END_OF_FRAME \<notin> set (tic_group l v c)"
    using plainD(1,2) [of l] plainD(1,2) [of v]
    by (auto simp: well_formed_def tic_group_def marker_def)
  then show ?case
    using Cons by (simp add: f)
qed

lemma frame_withD:
  assumes "frame_with sz buffer pre fs post"
  shows "first_frame buffer pre (groups fs) post" and "fs \<noteq> []"
    and "length fs \<le> GROUP_COUNT sz" and "1 + length (groups fs) \<le> FRAME_SIZE sz"
    and "FRAME_SIZE sz \<le> 200" and "distinct (map fst fs)"
    and "\<forall>f\<in>set fs. case f of (l, v, c) \<Rightarrow> field_fits sz l v \<and> \<not> marker c"
  using assms unfolding frame_with_def list_all_iff by blast+

lemma decode_frame_with:
  assumes "frame_with sz buffer pre fs post"
  shows "\<exists>d. decode sz rxBytes buffer = Inr (True, d)
           \<and> (\<forall>l. l \<notin> fst ` set fs \<longrightarrow> slot_same l data_reset d)
           \<and> (\<forall>f\<in>set fs. case f of (l, v, c) \<Rightarrow>
                 if c = checksum l v then slot_holds l v d else slot_same l data_reset d)"
proof -
  note fw = frame_withD [OF assms]
  have wf: "\<forall>f\<in>set fs. well_formed f"
    using fw(7) field_fits_well_formed by fastforce
  have fits: "\<forall>f\<in>set fs. case f of (l, v, c) \<Rightarrow> c = checksum l v \<longrightarrow> field_fits sz l v"
    using fw(7) by fastforce
  have len: "length (groups fs) < 200"
    using fw(4,5) by simp
  have "decode sz rxBytes buffer
          = and_then (fields_result sz fs data_reset) (\<lambda>data'. Inr (True, data'))"
    by (simp only: first_frame_decode [OF fw(1) len] decode_frame_fields [OF wf fw(2-5)])
  moreover obtain d where "fields_result sz fs data_reset = Inr d"
    and "\<forall>l. l \<notin> fst ` set fs \<longrightarrow> slot_same l data_reset d"
    and "\<forall>f\<in>set fs. case f of (l, v, c) \<Rightarrow>
           if c = checksum l v then slot_holds l v d else slot_same l data_reset d"
    using fields_result_slots [OF fw(6) fits, of data_reset] by blast
  ultimately show ?thesis
    by simp
qed

lemma sealed_in:
  "(l, v) \<in> set flds \<Longrightarrow> (l, v, checksum l v) \<in> set (map sealed flds)"
  by (force simp: sealed_def)

lemma fst_sealed: "map fst (map sealed flds) = map fst flds"
  by (simp add: sealed_def comp_def)

lemma slot_holds_digits:
  assumes "slot_holds l v d"
  shows "(l \<in> set numeric_labels \<and> list_all isdigit v
            \<longrightarrow> numeric_slot l d = Some (min (decimal v) ULONG_MAX))
         \<and> (l \<in> set text_labels \<longrightarrow> text_slot l d = Some v)"
  using assms by (simp add: slot_holds_def strtoul_decimal)

subsection \<open>Evaluation on given buffers\<close>

lemma find_groups_pad:
  "find_groups i (xs @ replicate k NUL) st = find_groups i xs st"
proof (induction xs arbitrary: i st)
  case Nil
  show ?case
    by (induction k arbitrary: i) (cases st; simp)+
next
  case (Cons x xs)
  then show ?case
    by (cases st) simp
qed

lemma find_groups_zeros: "find_groups i (replicate k (CHR 0x00)) st = Inr st"
  using find_groups_pad [of i "[]" k st] by (cases st) (simp add: NUL_def)

lemma eq_char_of_iff: "c = char_of n \<longleftrightarrow> take_bit 8 (n :: nat) = of_char c"
  using char_of_eq_iff [of n c] by auto

lemmas eval_defs = find_groups_zeros decode_def decode_frame_def decode_group_def memcpy_def
  usub_def UINT_MAX_def example_sizes_def START_OF_FRAME_def END_OF_FRAME_def
  START_OF_GROUP_def END_OF_GROUP_def GROUP_SEPARATOR_def NUL_def Let_def
  checksum_def c_str_def char_of_eq_iff eq_char_of_iff dispatch_def strcpy_def strtoul_def isspace_def
  isdigit_def digit_value_def ULONG_MAX_def

lemmas frame_defs = frame_with_def first_frame_def groups_def tic_group_def sealed_def
  field_fits_def plain_def marker_def numeric_labels_def text_labels_def text_size_def
  example_sizes_def UINT_MAX_def START_OF_FRAME_def END_OF_FRAME_def
  START_OF_GROUP_def END_OF_GROUP_def GROUP_SEPARATOR_def NUL_def
  checksum_def c_str_def char_of_eq_iff eq_char_of_iff

subsection \<open>Bytes past the frame\<close>

text \<open>
  Claim C7, as the code has it. Two buffers of the same size that agree on the
  bytes the search for the frame reads (those up to and including the end marker
  at which it stops in one of them, or all of them when it finds no frame) give
  the same result and the same record, whatever the two reported counts are:
  no byte after that end marker is interpreted. The reported count itself is
  not consulted.
\<close>
theorem decode_reads_scanned_prefix:
  assumes "length buffer' = length buffer"
    and "take (scanned buffer) buffer' = take (scanned buffer) buffer"
  shows "decode sz rxBytes' buffer' = decode sz rxBytes buffer"
  using assms by (rule decode_prefix)

theorem decode_reads_scanned_prefix_witness:
  "length ([CHR 0x02, CHR 0x0A] @ ''PAPP 00750 -'' @ [CHR 0x0D, CHR 0x03] @ ''pq'')
     = length ([CHR 0x02, CHR 0x0A] @ ''PAPP 00750 -'' @ [CHR 0x0D, CHR 0x03] @ ''xy'')
   \<and> scanned ([CHR 0x02, CHR 0x0A] @ ''PAPP 00750 -'' @ [CHR 0x0D, CHR 0x03] @ ''xy'') = 16
   \<and> take 16 ([CHR 0x02, CHR 0x0A] @ ''PAPP 00750 -'' @ [CHR 0x0D, CHR 0x03] @ ''pq'')
     = take 16 ([CHR 0x02, CHR 0x0A] @ ''PAPP 00750 -'' @ [CHR 0x0D, CHR 0x03] @ ''xy'')
   \<and> decode example_sizes 3
       ([CHR 0x02, CHR 0x0A] @ ''PAPP 00750 -'' @ [CHR 0x0D, CHR 0x03] @ ''pq'')
     = decode example_sizes 18
       ([CHR 0x02, CHR 0x0A] @ ''PAPP 00750 -'' @ [CHR 0x0D, CHR 0x03] @ ''xy'')"
proof -
  have l: "length ([CHR 0x02, CHR 0x0A] @ ''PAPP 00750 -'' @ [CHR 0x0D, CHR 0x03] @ ''pq'')
     = length ([CHR 0x02, CHR 0x0A] @ ''PAPP 00750 -'' @ [CHR 0x0D, CHR 0x03] @ ''xy'')"
    by simp
  have s: "scanned ([CHR 0x02, CHR 0x0A] @ ''PAPP 00750 -'' @ [CHR 0x0D, CHR 0x03] @ ''xy'') = 16"
    by (simp add: scanned_def START_OF_FRAME_def END_OF_FRAME_def UINT_MAX_def)
  have t: "take 16 ([CHR 0x02, CHR 0x0A] @ ''PAPP 00750 -'' @ [CHR 0x0D, CHR 0x03] @ ''pq'')
     = take 16 ([CHR 0x02, CHR 0x0A] @ ''PAPP 00750 -'' @ [CHR 0x0D, CHR 0x03] @ ''xy'')"
    by simp
  have "decode example_sizes 3
       ([CHR 0x02, CHR 0x0A] @ ''PAPP 00750 -'' @ [CHR 0x0D, CHR 0x03] @ ''pq'')
     = decode example_sizes 18
       ([CHR 0x02, CHR 0x0A] @ ''PAPP 00750 -'' @ [CHR 0x0D, CHR 0x03] @ ''xy'')"
    using t by (intro decode_reads_scanned_prefix [OF l]) (simp only: s)
  with l s t show ?thesis
    by (intro conjI)
qed

text \<open>
  The claim C7 as the specification states it, with the reported count as the
  bound, fails: these two buffers agree on their first two bytes, two bytes are
  reported as read, and the records differ.
\<close>
theorem stale_bytes_interpreted:
  "take 2 ([CHR 0x02, CHR 0x0A] @ ''PAPP 00750 -'' @ [CHR 0x0D, CHR 0x03])
     = take 2 ([CHR 0x02, CHR 0x0A] @ ''ISOUSC 30 9'' @ [CHR 0x0D, CHR 0x03, CHR 0x00])
   \<and> decode example_sizes 2 ([CHR 0x02, CHR 0x0A] @ ''PAPP 00750 -'' @ [CHR 0x0D, CHR 0x03])
     = Inr (True, data_reset\<lparr>PAPP := 750\<rparr>)
   \<and> decode example_sizes 2
       ([CHR 0x02, CHR 0x0A] @ ''ISOUSC 30 9'' @ [CHR 0x0D, CHR 0x03, CHR 0x00])
     = Inr (True, data_reset\<lparr>ISOUSC := 30\<rparr>)"
  by (simp add: eval_defs)

subsection \<open>Frames of valid groups\<close>

text \<open>
  Claim C2, as the code has it. Let the first frame of the buffer consist of
  groups with two separators each, a right checksum and known labels, no label
  twice, within the sizes of the decoder. Then \<open>decode\<close> returns success; the
  member of every numeric label whose value text is a string of digits holds
  the base-10 value of that text, or \<^verbatim>\<open>ULONG_MAX\<close> (\<open>2 ^ 32 - 1\<close>) when the value is
  larger; the member of every text label holds the value text as it is. A label
  that is none of the twelve, letter for letter, changes nothing.
\<close>
theorem decode_valid_frame:
  assumes "frame_with sz buffer pre (map sealed flds) post"
  shows "(\<exists>data. decode sz rxBytes buffer = Inr (True, data)
            \<and> (\<forall>(l, v)\<in>set flds.
                  (l \<in> set numeric_labels \<and> list_all isdigit v
                     \<longrightarrow> numeric_slot l data = Some (min (decimal v) ULONG_MAX))
                  \<and> (l \<in> set text_labels \<longrightarrow> text_slot l data = Some v)))
         \<and> (\<forall>l v d. l \<notin> set numeric_labels \<and> l \<notin> set text_labels
                       \<longrightarrow> dispatch sz l v d = Inr d)"
proof -
  obtain d where dec: "decode sz rxBytes buffer = Inr (True, d)"
    and ins: "\<forall>f\<in>set (map sealed flds). case f of (l, v, c) \<Rightarrow>
                 if c = checksum l v then slot_holds l v d else slot_same l data_reset d"
    using decode_frame_with [OF assms, of rxBytes] by blast
  have "slot_holds l v d" if "(l, v) \<in> set flds" for l v
    using ins sealed_in [OF that] by fastforce
  then have "\<forall>(l, v)\<in>set flds.
                  (l \<in> set numeric_labels \<and> list_all isdigit v
                     \<longrightarrow> numeric_slot l d = Some (min (decimal v) ULONG_MAX))
                  \<and> (l \<in> set text_labels \<longrightarrow> text_slot l d = Some v)"
    using slot_holds_digits by fast
  with dec show ?thesis
    using dispatch_unknown by blast
qed

theorem decode_valid_frame_witness:
  "frame_with example_sizes
      ([CHR 0x0D, CHR 0x03, CHR 0x02, CHR 0x0A] @ ''ISOUSC 30 9'' @ [CHR 0x0D, CHR 0x0A]
         @ ''OPTARIF BASE 0'' @ [CHR 0x0D, CHR 0x0A] @ ''BASE 002565285 ,''
         @ [CHR 0x0D, CHR 0x03, CHR 0x02, CHR 0x0A])
      [CHR 0x0D, CHR 0x03]
      (map sealed [(''ISOUSC'', ''30''), (''OPTARIF'', ''BASE''), (''BASE'', ''002565285'')])
      [CHR 0x02, CHR 0x0A]
   \<and> decode example_sizes 51
      ([CHR 0x0D, CHR 0x03, CHR 0x02, CHR 0x0A] @ ''ISOUSC 30 9'' @ [CHR 0x0D, CHR 0x0A]
         @ ''OPTARIF BASE 0'' @ [CHR 0x0D, CHR 0x0A] @ ''BASE 002565285 ,''
         @ [CHR 0x0D, CHR 0x03, CHR 0x02, CHR 0x0A])
       = Inr (True, data_reset\<lparr>ISOUSC := 30, OPTARIF := ''BASE'', BASE := 2565285\<rparr>)
   \<and> (\<exists>data. decode example_sizes 51
      ([CHR 0x0D, CHR 0x03, CHR 0x02, CHR 0x0A] @ ''ISOUSC 30 9'' @ [CHR 0x0D, CHR 0x0A]
         @ ''OPTARIF BASE 0'' @ [CHR 0x0D, CHR 0x0A] @ ''BASE 002565285 ,''
         @ [CHR 0x0D, CHR 0x03, CHR 0x02, CHR 0x0A]) = Inr (True, data)
       \<and> (\<forall>(l, v)\<in>set [(''ISOUSC'', ''30''), (''OPTARIF'', ''BASE''), (''BASE'', ''002565285'')].
                  (l \<in> set numeric_labels \<and> list_all isdigit v
                     \<longrightarrow> numeric_slot l data = Some (min (decimal v) ULONG_MAX))
                  \<and> (l \<in> set text_labels \<longrightarrow> text_slot l data = Some v)))"
proof -
  have h: "frame_with example_sizes
      ([CHR 0x0D, CHR 0x03, CHR 0x02, CHR 0x0A] @ ''ISOUSC 30 9'' @ [CHR 0x0D, CHR 0x0A]
         @ ''OPTARIF BASE 0'' @ [CHR 0x0D, CHR 0x0A] @ ''BASE 002565285 ,''
         @ [CHR 0x0D, CHR 0x03, CHR 0x02, CHR 0x0A])
      [CHR 0x0D, CHR 0x03]
      (map sealed [(''ISOUSC'', ''30''), (''OPTARIF'', ''BASE''), (''BASE'', ''002565285'')])
      [CHR 0x02, CHR 0x0A]"
    by (simp add: frame_defs)
  have e: "decode example_sizes 51
      ([CHR 0x0D, CHR 0x03, CHR 0x02, CHR 0x0A] @ ''ISOUSC 30 9'' @ [CHR 0x0D, CHR 0x0A]
         @ ''OPTARIF BASE 0'' @ [CHR 0x0D, CHR 0x0A] @ ''BASE 002565285 ,''
         @ [CHR 0x0D, CHR 0x03, CHR 0x02, CHR 0x0A])
       = Inr (True, data_reset\<lparr>ISOUSC := 30, OPTARIF := ''BASE'', BASE := 2565285\<rparr>)"
    by (simp add: eval_defs)
  from h e decode_valid_frame [OF h, of 51, THEN conjunct1] show ?thesis
    by (intro conjI)
qed

text \<open>
  The claim C2 as the specification states it fails for the meter identifier of
  its own example: the twelve digits of \<open>031258549200\<close> exceed an
  \<^verbatim>\<open>unsigned long\<close> of 32 bits, and the member holds \<^verbatim>\<open>ULONG_MAX\<close>.
\<close>
theorem adco_saturates:
  "decode example_sizes 23 ([CHR 0x02, CHR 0x0A] @ ''ADCO 031258549200 >'' @ [CHR 0x0D, CHR 0x03])
     = Inr (True, data_reset\<lparr>ADCO := 4294967295\<rparr>)
   \<and> checksum ''ADCO'' ''031258549200'' = CHR ''>''
   \<and> decimal ''031258549200'' = 31258549200"
  by (simp add: eval_defs decimal_def)

subsection \<open>A wrong checksum character\<close>

text \<open>
  Claim C4, as the code has it. Let the first frame of the buffer consist of
  groups that would be valid but for the checksum character of one of them,
  which is wrong and is none of the five markers. Then \<open>decode\<close> returns success,
  the member of that field is as the start of the cycle has cleared it, and the
  members of the other fields hold their values.
\<close>
theorem corrupted_checksum_skipped:
  assumes "frame_with sz buffer pre (map sealed before @ (l, v, c) # map sealed after) post"
    and "c \<noteq> checksum l v"
  shows "\<exists>data. decode sz rxBytes buffer = Inr (True, data)
           \<and> numeric_slot l data = numeric_slot l data_reset
           \<and> text_slot l data = text_slot l data_reset
           \<and> (\<forall>(l', v')\<in>set (before @ after).
                 (l' \<in> set numeric_labels \<and> list_all isdigit v'
                    \<longrightarrow> numeric_slot l' data = Some (min (decimal v') ULONG_MAX))
                 \<and> (l' \<in> set text_labels \<longrightarrow> text_slot l' data = Some v'))"
proof -
  let ?fs = "map sealed before @ (l, v, c) # map sealed after"
  obtain d where dec: "decode sz rxBytes buffer = Inr (True, d)"
    and ins: "\<forall>f\<in>set ?fs. case f of (l, v, c) \<Rightarrow>
                 if c = checksum l v then slot_holds l v d else slot_same l data_reset d"
    using decode_frame_with [OF assms(1), of rxBytes] by blast
  have "slot_same l data_reset d"
    using ins assms(2) by simp
  then have own: "numeric_slot l d = numeric_slot l data_reset"
    "text_slot l d = text_slot l data_reset"
    by (simp_all add: slot_same_def)
  have "slot_holds l' v' d" if "(l', v') \<in> set (before @ after)" for l' v'
  proof -
    have "(l', v', checksum l' v') \<in> set ?fs"
      using that sealed_in [of l' v' before] sealed_in [of l' v' after] by auto
    then show ?thesis
      using ins by fastforce
  qed
  then have "\<forall>(l', v')\<in>set (before @ after).
                 (l' \<in> set numeric_labels \<and> list_all isdigit v'
                    \<longrightarrow> numeric_slot l' d = Some (min (decimal v') ULONG_MAX))
                 \<and> (l' \<in> set text_labels \<longrightarrow> text_slot l' d = Some v')"
    using slot_holds_digits by fast
  with dec own show ?thesis
    by blast
qed

theorem corrupted_checksum_skipped_witness:
  "frame_with example_sizes
      ([CHR 0x02, CHR 0x0A] @ ''ISOUSC 30 9'' @ [CHR 0x0D, CHR 0x0A]
         @ ''PAPP 00750 x'' @ [CHR 0x0D, CHR 0x0A] @ ''OPTARIF BASE 0'' @ [CHR 0x0D, CHR 0x03])
      []
      (map sealed [(''ISOUSC'', ''30'')] @ (''PAPP'', ''00750'', CHR ''x'')
         # map sealed [(''OPTARIF'', ''BASE'')])
      []
   \<and> CHR ''x'' \<noteq> checksum ''PAPP'' ''00750''
   \<and> decode example_sizes 47
      ([CHR 0x02, CHR 0x0A] @ ''ISOUSC 30 9'' @ [CHR 0x0D, CHR 0x0A]
         @ ''PAPP 00750 x'' @ [CHR 0x0D, CHR 0x0A] @ ''OPTARIF BASE 0'' @ [CHR 0x0D, CHR 0x03])
       = Inr (True, data_reset\<lparr>ISOUSC := 30, OPTARIF := ''BASE''\<rparr>)
   \<and> (\<exists>data. decode example_sizes 47
      ([CHR 0x02, CHR 0x0A] @ ''ISOUSC 30 9'' @ [CHR 0x0D, CHR 0x0A]
         @ ''PAPP 00750 x'' @ [CHR 0x0D, CHR 0x0A] @ ''OPTARIF BASE 0'' @ [CHR 0x0D, CHR 0x03])
         = Inr (True, data)
       \<and> numeric_slot ''PAPP'' data = numeric_slot ''PAPP'' data_reset
       \<and> text_slot ''PAPP'' data = text_slot ''PAPP'' data_reset
       \<and> (\<forall>(l', v')\<in>set ([(''ISOUSC'', ''30'')] @ [(''OPTARIF'', ''BASE'')]).
                 (l' \<in> set numeric_labels \<and> list_all isdigit v'
                    \<longrightarrow> numeric_slot l' data = Some (min (decimal v') ULONG_MAX))
                 \<and> (l' \<in> set text_labels \<longrightarrow> text_slot l' data = Some v')))"
proof -
  have h: "frame_with example_sizes
      ([CHR 0x02, CHR 0x0A] @ ''ISOUSC 30 9'' @ [CHR 0x0D, CHR 0x0A]
         @ ''PAPP 00750 x'' @ [CHR 0x0D, CHR 0x0A] @ ''OPTARIF BASE 0'' @ [CHR 0x0D, CHR 0x03])
      []
      (map sealed [(''ISOUSC'', ''30'')] @ (''PAPP'', ''00750'', CHR ''x'')
         # map sealed [(''OPTARIF'', ''BASE'')])
      []"
    by (simp add: frame_defs)
  have c: "CHR ''x'' \<noteq> checksum ''PAPP'' ''00750''"
    by (simp add: eval_defs)
  have e: "decode example_sizes 47
      ([CHR 0x02, CHR 0x0A] @ ''ISOUSC 30 9'' @ [CHR 0x0D, CHR 0x0A]
         @ ''PAPP 00750 x'' @ [CHR 0x0D, CHR 0x0A] @ ''OPTARIF BASE 0'' @ [CHR 0x0D, CHR 0x03])
       = Inr (True, data_reset\<lparr>ISOUSC := 30, OPTARIF := ''BASE''\<rparr>)"
    by (simp add: eval_defs)
  from h c e corrupted_checksum_skipped [OF h c, of 47] show ?thesis
    by (intro conjI)
qed

text \<open>
  The claim C4 as the specification states it fails when the checksum character
  is corrupted into a marker: with a start-of-group marker in its place the
  frame has three of them and two end-of-group markers, and the cycle fails.
\<close>
theorem checksum_corrupted_to_marker:
  "decode example_sizes 30
     ([CHR 0x02, CHR 0x0A] @ ''ISOUSC 30 9'' @ [CHR 0x0D, CHR 0x0A] @ ''PAPP 00750 ''
        @ [CHR 0x0A, CHR 0x0D, CHR 0x03])
     = Inr (False, data_reset)
   \<and> checksum ''ISOUSC'' ''30'' = CHR ''9''
   \<and> checksum ''PAPP'' ''00750'' \<noteq> CHR 0x0A"
  by (simp add: eval_defs)

subsection \<open>Values that are not numbers\<close>

text \<open>
  Claim C10, as the code has it. For a field with a numeric label and a right
  checksum in a frame of valid groups, the member is set to what \<^verbatim>\<open>strtoul\<close>
  returns for the value text: after leading white space and one optional sign,
  the base-10 value of the longest sequence of digits, replaced by \<^verbatim>\<open>ULONG_MAX\<close>
  when it is larger, and negated modulo \<open>2 ^ 32\<close> after a minus sign; what
  follows the digits is ignored, and no digit there gives 0. The cycle succeeds,
  and the dispatcher stores a numeric field whatever its value text is.
\<close>
theorem numeric_field_conversion:
  assumes "frame_with sz buffer pre (map sealed flds) post"
    and "(l, ws @ sg @ ds @ rest) \<in> set flds" and "l \<in> set numeric_labels"
    and "list_all isspace ws" and "sg = [] \<or> sg = ''+'' \<or> sg = ''-''"
    and "list_all isdigit ds" and "rest = [] \<or> \<not> isdigit (hd rest)"
    and "sg = [] \<and> ds = [] \<longrightarrow>
           rest = [] \<or> \<not> isspace (hd rest) \<and> hd rest \<noteq> CHR ''+'' \<and> hd rest \<noteq> CHR ''-''"
  shows "(\<exists>data. decode sz rxBytes buffer = Inr (True, data)
            \<and> numeric_slot l data = Some (converted (sg = ''-'') (decimal ds)))
         \<and> (\<forall>v d. \<exists>d'. dispatch sz l v d = Inr d')"
proof -
  obtain d where dec: "decode sz rxBytes buffer = Inr (True, d)"
    and ins: "\<forall>f\<in>set (map sealed flds). case f of (l, v, c) \<Rightarrow>
                 if c = checksum l v then slot_holds l v d else slot_same l data_reset d"
    using decode_frame_with [OF assms(1), of rxBytes] by blast
  have "slot_holds l (ws @ sg @ ds @ rest) d"
    using ins sealed_in [OF assms(2)] by fastforce
  then have "numeric_slot l d = Some (strtoul (ws @ sg @ ds @ rest))"
    using assms(3) by (simp add: slot_holds_def)
  then have "numeric_slot l d = Some (converted (sg = ''-'') (decimal ds))"
    by (simp only: strtoul_parts [OF assms(4-8)])
  moreover have "\<exists>d'. dispatch sz l v d = Inr d'" for v d
    using dispatch_numeric [OF assms(3), of sz v d] by (elim exE conjE) (rule exI)
  ultimately show ?thesis
    using dec by blast
qed

theorem numeric_field_conversion_witness:
  "frame_with example_sizes
      ([CHR 0x02, CHR 0x0A] @ ''PAPP '' @ [CHR 0x09] @ ''-12kW L'' @ [CHR 0x0D, CHR 0x03]) []
      (map sealed [(''PAPP'', [CHR 0x09] @ ''-'' @ ''12'' @ ''kW'')]) []
   \<and> converted (''-'' = ''-'') (decimal ''12'') = 4294967284
   \<and> decode example_sizes 17
      ([CHR 0x02, CHR 0x0A] @ ''PAPP '' @ [CHR 0x09] @ ''-12kW L'' @ [CHR 0x0D, CHR 0x03])
       = Inr (True, data_reset\<lparr>PAPP := 4294967284\<rparr>)
   \<and> (\<exists>data. decode example_sizes 17
      ([CHR 0x02, CHR 0x0A] @ ''PAPP '' @ [CHR 0x09] @ ''-12kW L'' @ [CHR 0x0D, CHR 0x03])
         = Inr (True, data)
       \<and> numeric_slot ''PAPP'' data = Some (converted (''-'' = ''-'') (decimal ''12'')))"
proof -
  have h: "frame_with example_sizes
      ([CHR 0x02, CHR 0x0A] @ ''PAPP '' @ [CHR 0x09] @ ''-12kW L'' @ [CHR 0x0D, CHR 0x03]) []
      (map sealed [(''PAPP'', [CHR 0x09] @ ''-'' @ ''12'' @ ''kW'')]) []"
    by (simp add: frame_defs)
  have c: "converted (''-'' = ''-'') (decimal ''12'') = 4294967284"
    by (simp add: converted_def decimal_def digit_value_def usub_def ULONG_MAX_def)
  have e: "decode example_sizes 17
      ([CHR 0x02, CHR 0x0A] @ ''PAPP '' @ [CHR 0x09] @ ''-12kW L'' @ [CHR 0x0D, CHR 0x03])
       = Inr (True, data_reset\<lparr>PAPP := 4294967284\<rparr>)"
    by (simp add: eval_defs)
  have m: "(''PAPP'', [CHR 0x09] @ ''-'' @ ''12'' @ ''kW'')
             \<in> set [(''PAPP'', [CHR 0x09] @ ''-'' @ ''12'' @ ''kW'')]"
    by simp
  have n: "''PAPP'' \<in> set numeric_labels"
    by (simp add: numeric_labels_def)
  have w: "list_all isspace [CHR 0x09]" and d: "list_all isdigit ''12''"
    and r: "''kW'' = [] \<or> \<not> isdigit (hd ''kW'')"
    by (simp_all add: isspace_def isdigit_def)
  have s: "''-'' = [] \<or> ''-'' = ''+'' \<or> ''-'' = ''-''"
    and b: "''-'' = [] \<and> ''12'' = [] \<longrightarrow>
           ''kW'' = [] \<or> \<not> isspace (hd ''kW'') \<and> hd ''kW'' \<noteq> CHR ''+'' \<and> hd ''kW'' \<noteq> CHR ''-''"
    by simp_all
  from h c e numeric_field_conversion [OF h m n w s d r b, of 17, THEN conjunct1]
  show ?thesis
    by (intro conjI)
qed

text \<open>
  The claim C10 as the specification states it fails: the value text \<open>-5\<close> has
  no leading digit and the member is not 0, and the leading digits of
  \<open>4294967296\<close> are not the value of the member.
\<close>
theorem sign_and_range_converted:
  "decode example_sizes 13 ([CHR 0x02, CHR 0x0A] @ ''PAPP -5 S'' @ [CHR 0x0D, CHR 0x03])
     = Inr (True, data_reset\<lparr>PAPP := 4294967291\<rparr>)
   \<and> decode example_sizes 21 ([CHR 0x02, CHR 0x0A] @ ''IMAX 4294967296 I'' @ [CHR 0x0D, CHR 0x03])
     = Inr (True, data_reset\<lparr>IMAX := 4294967295\<rparr>)
   \<and> decimal ''4294967296'' = 4294967296"
  by (simp add: eval_defs decimal_def)

subsection \<open>Texts longer than the arrays, and missing separators\<close>

text \<open>
  A buffer that holds one frame of one group, for all sizes of \<^verbatim>\<open>linky.h\<close>: the
  loop over the frame reads outside \<^verbatim>\<open>frame[200]\<close> when \<^verbatim>\<open>FRAME_SIZE\<close> is larger,
  it does not reach the end of the group when \<^verbatim>\<open>FRAME_SIZE\<close> is smaller than the
  frame, and the cycle fails; otherwise the group is decoded.
\<close>
lemma single_group:
  assumes "START_OF_FRAME \<notin> set body" "END_OF_FRAME \<notin> set body"
    and "START_OF_GROUP \<notin> set body" "END_OF_GROUP \<notin> set body"
    and "length body \<le> 197"
  shows "decode sz rxBytes (START_OF_FRAME # START_OF_GROUP # body @ [END_OF_GROUP, END_OF_FRAME])
     = (if 200 < FRAME_SIZE sz then Inl (Overread ''frame'')
        else if FRAME_SIZE sz < length body + 3 then Inr (False, data_reset)
        else and_then
          (decode_group sz
             (START_OF_FRAME # START_OF_GROUP # body @ END_OF_GROUP # replicate (197 - length body) NUL)
             1 (length body + 2) 1 data_reset)
          (\<lambda>d. Inr (True, d)))"
proof -
  let ?g = "START_OF_GROUP # body @ [END_OF_GROUP]"
  let ?w = "START_OF_FRAME # START_OF_GROUP # body @ [END_OF_GROUP]"
  let ?init = "UINT_MAX # replicate (GROUP_COUNT sz - 1) 0"
  define frame where
    "frame = START_OF_FRAME # START_OF_GROUP # body @ END_OF_GROUP # replicate (197 - length body) NUL"
  have fr: "frame = ?w @ replicate (197 - length body) NUL"
    by (simp add: frame_def)
  have ff: "first_frame (START_OF_FRAME # START_OF_GROUP # body @ [END_OF_GROUP, END_OF_FRAME]) [] ?g []"
    using assms by (simp add: first_frame_def UINT_MAX_def)
  have "decode sz rxBytes (START_OF_FRAME # START_OF_GROUP # body @ [END_OF_GROUP, END_OF_FRAME])
          = decode_frame sz (START_OF_FRAME # ?g @ replicate (199 - length ?g) NUL) data_reset"
    using assms(5) by (intro first_frame_decode [OF ff]) simp
  then have dec: "decode sz rxBytes (START_OF_FRAME # START_OF_GROUP # body @ [END_OF_GROUP, END_OF_FRAME])
          = decode_frame sz frame data_reset"
    by (simp add: frame_def)
  have len: "length frame = 200"
    using assms(5) by (simp add: frame_def)
  consider (over) "200 < FRAME_SIZE sz" | (cut) "FRAME_SIZE sz < length body + 3"
    | (whole) "length body + 3 \<le> FRAME_SIZE sz" "FRAME_SIZE sz \<le> 200"
    by linarith
  then have "decode_frame sz frame data_reset
     = (if 200 < FRAME_SIZE sz then Inl (Overread ''frame'')
        else if FRAME_SIZE sz < length body + 3 then Inr (False, data_reset)
        else and_then (decode_group sz frame 1 (length body + 2) 1 data_reset)
               (\<lambda>d. Inr (True, d)))"
  proof cases
    case over
    then show ?thesis
      by (simp add: decode_frame_def len)
  next
    case cut
    have "frame = (START_OF_FRAME # START_OF_GROUP # body)
                    @ END_OF_GROUP # replicate (197 - length body) NUL"
      by (simp add: frame_def)
    then have tk: "take (FRAME_SIZE sz) frame = take (FRAME_SIZE sz) (START_OF_FRAME # START_OF_GROUP # body)"
      using cut by (simp only: take_append) simp
    have "END_OF_GROUP \<notin> set (START_OF_FRAME # START_OF_GROUP # body)"
      using assms(4) by simp
    then have a: "END_OF_GROUP \<notin> set (take (FRAME_SIZE sz) frame)"
      unfolding tk by (meson in_set_takeD)
    have "count_list (START_OF_FRAME # START_OF_GROUP # body) START_OF_GROUP = 1"
      using assms(3) by (simp add: count_list_0_iff)
    then have b: "count_list (take (FRAME_SIZE sz) frame) START_OF_GROUP \<le> 1"
      unfolding tk
      using count_list_take_le [of "FRAME_SIZE sz" "START_OF_FRAME # START_OF_GROUP # body" START_OF_GROUP]
      by simp
    have "decode_frame sz frame data_reset = Inr (False, data_reset)"
      using cut len a b assms(5) by (intro decode_frame_cut) simp_all
    then show ?thesis
      using cut assms(5) by simp
  next
    case whole
    have tk: "take (FRAME_SIZE sz) frame = ?w @ replicate (FRAME_SIZE sz - length ?w) NUL"
      unfolding fr using whole assms(5) by (intro take_padded) simp_all
    have cs: "count_list ?w START_OF_GROUP = 1" "count_list ?w END_OF_GROUP = 1"
      using assms(3,4) by (simp_all add: count_list_0_iff)
    have ps: "positions START_OF_GROUP 0 ?w = [1]" "positions END_OF_GROUP 0 ?w = [length body + 2]"
      using assms(3,4) by (simp_all add: positions_append positions_none)
    have "find_groups 0 ?w (?init, ?init, 0, 0)
            = Inr (take 0 ?init @ positions START_OF_GROUP 0 ?w
                     @ drop (0 + count_list ?w START_OF_GROUP) ?init,
                   take 0 ?init @ positions END_OF_GROUP 0 ?w
                     @ drop (0 + count_list ?w END_OF_GROUP) ?init,
                   0 + count_list ?w START_OF_GROUP, 0 + count_list ?w END_OF_GROUP)"
      by (rule find_groups_positions) (simp_all only: cs, simp_all)
    then have fg: "find_groups 0 (take (FRAME_SIZE sz) frame) (?init, ?init, 0, 0)
            = Inr (1 # replicate (GROUP_COUNT sz - 1) 0,
                   (length body + 2) # replicate (GROUP_COUNT sz - 1) 0, 1, 1)"
      unfolding tk find_groups_pad by (simp only: cs ps) simp
    have "decode_frame sz frame data_reset
            = and_then (decode_group sz frame 1 (length body + 2) 1 data_reset) (\<lambda>d. Inr (True, d))"
      unfolding decode_frame_def fg using whole len
      by (cases "decode_group sz frame 1 (length body + 2) 1 data_reset")
        (simp_all add: UINT_MAX_def)
    then show ?thesis
      using whole by simp
  qed
  then show ?thesis
    unfolding dec frame_def .
qed

lemmas group_defs = decode_group_def memcpy_def usub_def GROUP_SEPARATOR_def START_OF_FRAME_def
  END_OF_FRAME_def START_OF_GROUP_def END_OF_GROUP_def NUL_def

lemma single_group_fault:
  assumes "START_OF_FRAME \<notin> set body" "END_OF_FRAME \<notin> set body"
    and "START_OF_GROUP \<notin> set body" "END_OF_GROUP \<notin> set body"
    and "length body \<le> 197"
    and "decode_group sz
           (START_OF_FRAME # START_OF_GROUP # body @ END_OF_GROUP # replicate (197 - length body) NUL)
           1 (length body + 2) 1 data_reset = Inl e"
  shows "decode sz rxBytes (START_OF_FRAME # START_OF_GROUP # body @ [END_OF_GROUP, END_OF_FRAME])
     = (if 200 < FRAME_SIZE sz then Inl (Overread ''frame'')
        else if FRAME_SIZE sz < length body + 3 then Inr (False, data_reset)
        else Inl e)"
  unfolding single_group [OF assms(1-5)] assms(6) by simp

text \<open>
  Claim C8 does not hold of the code. The label and the value are copied whole
  by \<^verbatim>\<open>memcpy\<close>, with the length between the markers, and nothing is truncated.
  Whatever the sizes of \<^verbatim>\<open>linky.h\<close> are, a loop over the frame that reaches the
  group writes a label of eleven characters and a value of twenty-one
  characters past the arrays \<^verbatim>\<open>label[10]\<close> and \<^verbatim>\<open>value[20]\<close>, and a label of ten
  characters fills its array and leaves it without terminator for \<^verbatim>\<open>strlen\<close>;
  in no case does the cycle succeed.
\<close>
theorem overlong_text_overruns:
  "decode sz rxBytes ([CHR 0x02, CHR 0x0A] @ ''ABCDEFGHIJK 1 3'' @ [CHR 0x0D, CHR 0x03])
     = (if 200 < FRAME_SIZE sz then Inl (Overread ''frame'')
        else if FRAME_SIZE sz < 18 then Inr (False, data_reset)
        else Inl (Overflow ''label''))
   \<and> decode sz rxBytes ([CHR 0x02, CHR 0x0A] @ ''ABCDEFGHIJ 1 X'' @ [CHR 0x0D, CHR 0x03])
     = (if 200 < FRAME_SIZE sz then Inl (Overread ''frame'')
        else if FRAME_SIZE sz < 17 then Inr (False, data_reset)
        else Inl (Overread ''label''))
   \<and> decode sz rxBytes
       ([CHR 0x02, CHR 0x0A] @ ''PAPP 012345678901234567890 X'' @ [CHR 0x0D, CHR 0x03])
     = (if 200 < FRAME_SIZE sz then Inl (Overread ''frame'')
        else if FRAME_SIZE sz < 31 then Inr (False, data_reset)
        else Inl (Overflow ''value''))
   \<and> decode example_sizes 19 ([CHR 0x02, CHR 0x0A] @ ''ABCDEFGHIJK 1 3'' @ [CHR 0x0D, CHR 0x03])
     = Inl (Overflow ''label'')
   \<and> checksum ''ABCDEFGHIJK'' ''1'' = CHR ''3''"
proof -
  have "decode sz rxBytes
          (START_OF_FRAME # START_OF_GROUP # ''ABCDEFGHIJK 1 3'' @ [END_OF_GROUP, END_OF_FRAME])
     = (if 200 < FRAME_SIZE sz then Inl (Overread ''frame'')
        else if FRAME_SIZE sz < length ''ABCDEFGHIJK 1 3'' + 3 then Inr (False, data_reset)
        else Inl (Overflow ''label''))"
    by (rule single_group_fault) (simp_all add: group_defs)
  moreover have "decode sz rxBytes
          (START_OF_FRAME # START_OF_GROUP # ''ABCDEFGHIJ 1 X'' @ [END_OF_GROUP, END_OF_FRAME])
     = (if 200 < FRAME_SIZE sz then Inl (Overread ''frame'')
        else if FRAME_SIZE sz < length ''ABCDEFGHIJ 1 X'' + 3 then Inr (False, data_reset)
        else Inl (Overread ''label''))"
    by (rule single_group_fault) (simp_all add: group_defs)
  moreover have "decode sz rxBytes
          (START_OF_FRAME # START_OF_GROUP # ''PAPP 012345678901234567890 X''
             @ [END_OF_GROUP, END_OF_FRAME])
     = (if 200 < FRAME_SIZE sz then Inl (Overread ''frame'')
        else if FRAME_SIZE sz < length ''PAPP 012345678901234567890 X'' + 3
             then Inr (False, data_reset)
        else Inl (Overflow ''value''))"
    by (rule single_group_fault) (simp_all add: group_defs)
  moreover have "decode example_sizes 19
        ([CHR 0x02, CHR 0x0A] @ ''ABCDEFGHIJK 1 3'' @ [CHR 0x0D, CHR 0x03])
     = Inl (Overflow ''label'')"
    by (simp add: eval_defs)
  moreover have "checksum ''ABCDEFGHIJK'' ''1'' = CHR ''3''"
    by (simp add: eval_defs)
  ultimately show ?thesis
    by (simp add: START_OF_FRAME_def END_OF_FRAME_def START_OF_GROUP_def END_OF_GROUP_def)
qed

text \<open>
  Claim C9 does not hold of the code. The cells of \<^verbatim>\<open>separatorIndex\<close> that no
  separator has filled are 0, and the lengths given to \<^verbatim>\<open>memcpy\<close> wrap around:
  without separator the label is copied with the length \<open>0 - 1 - 1\<close>, which is
  \<open>2 ^ 32 - 2\<close>, and with one separator the value is copied with such a
  length. Whatever the sizes of \<^verbatim>\<open>linky.h\<close> are, the field is not skipped and
  the cycle does not succeed: a loop over the frame that reaches the group
  overruns the arrays.
\<close>
theorem missing_separator_overruns:
  "decode sz rxBytes ([CHR 0x02, CHR 0x0A] @ ''ADCO'' @ [CHR 0x0D, CHR 0x03])
     = (if 200 < FRAME_SIZE sz then Inl (Overread ''frame'')
        else if FRAME_SIZE sz < 7 then Inr (False, data_reset)
        else Inl (Overflow ''label''))
   \<and> decode sz rxBytes ([CHR 0x02, CHR 0x0A] @ ''ADCO 12'' @ [CHR 0x0D, CHR 0x03])
     = (if 200 < FRAME_SIZE sz then Inl (Overread ''frame'')
        else if FRAME_SIZE sz < 10 then Inr (False, data_reset)
        else Inl (Overflow ''value''))
   \<and> decode example_sizes 8 ([CHR 0x02, CHR 0x0A] @ ''ADCO'' @ [CHR 0x0D, CHR 0x03])
     = Inl (Overflow ''label'')
   \<and> usub (usub 0 1) 1 = 4294967294"
proof -
  have "decode sz rxBytes
          (START_OF_FRAME # START_OF_GROUP # ''ADCO'' @ [END_OF_GROUP, END_OF_FRAME])
     = (if 200 < FRAME_SIZE sz then Inl (Overread ''frame'')
        else if FRAME_SIZE sz < length ''ADCO'' + 3 then Inr (False, data_reset)
        else Inl (Overflow ''label''))"
    by (rule single_group_fault) (simp_all add: group_defs)
  moreover have "decode sz rxBytes
          (START_OF_FRAME # START_OF_GROUP # ''ADCO 12'' @ [END_OF_GROUP, END_OF_FRAME])
     = (if 200 < FRAME_SIZE sz then Inl (Overread ''frame'')
        else if FRAME_SIZE sz < length ''ADCO 12'' + 3 then Inr (False, data_reset)
        else Inl (Overflow ''value''))"
    by (rule single_group_fault) (simp_all add: group_defs)
  moreover have "decode example_sizes 8 ([CHR 0x02, CHR 0x0A] @ ''ADCO'' @ [CHR 0x0D, CHR 0x03])
     = Inl (Overflow ''label'')"
    by (simp add: eval_defs)
  moreover have "usub (usub 0 1) 1 = 4294967294"
    by (simp add: usub_def)
  ultimately show ?thesis
    by (simp add: START_OF_FRAME_def END_OF_FRAME_def START_OF_GROUP_def END_OF_GROUP_def)
qed

end
